theory Spec2Isabelle
  imports Main "HOL-Library.Sublist"
begin

section \<open>Strings\<close>

text \<open>
  Python strings are modelled as \<^typ>\<open>string\<close>; a character stands for a code point
  below 256. The functions of this section follow the methods of \<^verbatim>\<open>str\<close> that
  \<^verbatim>\<open>fix_html_links.py\<close> calls.
\<close>

definition startswith :: "string \<Rightarrow> string \<Rightarrow> bool" where
  "startswith s p = (take (length p) s = p)"

definition endswith :: "string \<Rightarrow> string \<Rightarrow> bool" where
  "endswith s p = (length p \<le> length s \<and> drop (length s - length p) s = p)"

text \<open>\<^verbatim>\<open>s.lstrip(cs)\<close> and \<^verbatim>\<open>s.rstrip(cs)\<close>: every leading (trailing) character that
  occurs in \<open>cs\<close> is removed.\<close>

definition lstrip :: "string \<Rightarrow> string \<Rightarrow> string" where
  "lstrip s cs = dropWhile (\<lambda>c. c \<in> set cs) s"

definition rstrip :: "string \<Rightarrow> string \<Rightarrow> string" where
  "rstrip s cs = rev (dropWhile (\<lambda>c. c \<in> set cs) (rev s))"

text \<open>\<^verbatim>\<open>s.rfind(c)\<close> for a single character: the highest index of \<open>c\<close>, or \<open>-1\<close>.\<close>

fun rfind :: "string \<Rightarrow> char \<Rightarrow> int" where
  "rfind [] c = - 1"
| "rfind (x # xs) c =
     (let r = rfind xs c in if 0 \<le> r then r + 1 else if x = c then 0 else - 1)"

text \<open>\<^verbatim>\<open>s.split(c)\<close> with an explicit separator: empty pieces are kept, and the empty
  string splits into one empty piece.\<close>

fun split :: "string \<Rightarrow> char \<Rightarrow> string list" where
  "split [] c = [[]]"
| "split (x # xs) c =
     (if x = c then [] # split xs c
      else (case split xs c of [] \<Rightarrow> [[x]] | w # ws \<Rightarrow> (x # w) # ws))"

text \<open>\<^verbatim>\<open>str.isspace\<close> on the code points below 256.\<close>

definition isspace :: "char \<Rightarrow> bool" where
  "isspace c = (let n = of_char c :: nat in
     (9 \<le> n \<and> n \<le> 13) \<or> (28 \<le> n \<and> n \<le> 32) \<or> n = 133 \<or> n = 160)"

definition strip :: "string \<Rightarrow> string" where
  "strip s = rev (dropWhile isspace (rev (dropWhile isspace s)))"

text \<open>\<^verbatim>\<open>s.split()\<close> without a separator: the maximal runs of non-whitespace.\<close>

function split_ws :: "string \<Rightarrow> string list" where
  "split_ws s =
     (let t = dropWhile isspace s in
      if t = [] then []
      else takeWhile (\<lambda>c. \<not> isspace c) t # split_ws (dropWhile (\<lambda>c. \<not> isspace c) t))"
  by pat_completeness auto
termination
proof (relation "measure length")
  show "wf (measure length)" by simp
next
  fix s t :: string
  assume t: "t = dropWhile isspace s" and ne: "t \<noteq> []"
  from ne obtain x xs where tx: "t = x # xs" by (cases t) auto
  from ne t have "dropWhile isspace s \<noteq> []" by blast
  then have "\<not> isspace (hd (dropWhile isspace s))" by (rule hd_dropWhile)
  moreover from t tx have "hd (dropWhile isspace s) = x" by (metis list.sel(1))
  ultimately have "\<not> isspace x" by blast
  then have "length (dropWhile (\<lambda>c. \<not> isspace c) t) \<le> length xs"
    using tx by (simp add: length_dropWhile_le)
  moreover have "length t \<le> length s"
    using t by (simp add: length_dropWhile_le)
  ultimately show "(dropWhile (\<lambda>c. \<not> isspace c) t, s) \<in> measure length"
    using tx by simp
qed

declare split_ws.simps [simp del]

text \<open>\<^verbatim>\<open>s.lower()\<close> on the code points below 256: the ASCII capitals and the Latin-1
  capitals (192 to 222 without the multiplication sign 215) move up by 32.\<close>

definition lower_char :: "char \<Rightarrow> char" where
  "lower_char c = (let n = of_char c :: nat in
     if (65 \<le> n \<and> n \<le> 90) \<or> (192 \<le> n \<and> n \<le> 222 \<and> n \<noteq> 215)
     then char_of (n + 32) else c)"

definition lower :: "string \<Rightarrow> string" where
  "lower s = map lower_char s"

section \<open>Paths (\<^verbatim>\<open>os.path\<close> on POSIX)\<close>

text \<open>
  The script reaches the file system through \<^verbatim>\<open>os.path.exists\<close>, \<^verbatim>\<open>os.getcwd\<close>
  (inside \<^verbatim>\<open>os.path.abspath\<close>) and \<^verbatim>\<open>os.walk\<close>. The state of the operating system
  that these read is a record; the script creates, deletes and renames nothing, so the
  record is the same during a whole run.
\<close>

record os =
  exists :: "string \<Rightarrow> bool"
  getcwd :: string
  walk :: "string \<Rightarrow> (string \<times> string list \<times> string list) list"

datatype error = ValueError | IndexError

definition isabs :: "string \<Rightarrow> bool" where
  "isabs s = startswith s ''/''"

text \<open>\<^verbatim>\<open>os.path.join(a, b)\<close>, and \<^verbatim>\<open>os.path.join(*parts)\<close> on a non-empty list.\<close>

definition join :: "string \<Rightarrow> string \<Rightarrow> string" where
  "join a b =
     (if startswith b ''/'' then b
      else if a = [] \<or> endswith a ''/'' then a @ b
      else a @ ''/'' @ b)"

definition join_list :: "string list \<Rightarrow> string" where
  "join_list ps = foldl join (hd ps) (tl ps)"

definition basename :: "string \<Rightarrow> string" where
  "basename p = drop (nat (rfind p CHR ''/'' + 1)) p"

definition dirname :: "string \<Rightarrow> string" where
  "dirname p =
     (let i = nat (rfind p CHR ''/'' + 1);
          head = take i p
      in if head \<noteq> [] \<and> head \<noteq> replicate (length head) CHR ''/''
         then rstrip head ''/'' else head)"

text \<open>\<^verbatim>\<open>os.path.splitext\<close>: the loop skips the leading dots of the file name.\<close>

function splitext_loop :: "string \<Rightarrow> nat \<Rightarrow> nat \<Rightarrow> bool" where
  "splitext_loop p filenameIndex dotIndex =
     (if filenameIndex < dotIndex
      then (if take 1 (drop filenameIndex p) \<noteq> ''.'' then True
            else splitext_loop p (filenameIndex + 1) dotIndex)
      else False)"
  by pat_completeness auto
termination
  by (relation "measure (\<lambda>(p, i, d). d - i)") auto

declare splitext_loop.simps [simp del]

definition splitext :: "string \<Rightarrow> string \<times> string" where
  "splitext p =
     (let sepIndex = rfind p CHR ''/'';
          dotIndex = rfind p CHR ''.''
      in if dotIndex > sepIndex \<and> splitext_loop p (nat (sepIndex + 1)) (nat dotIndex)
         then (take (nat dotIndex) p, drop (nat dotIndex) p)
         else (p, []))"

text \<open>\<^verbatim>\<open>os.path.normpath\<close>: one step of its loop over the components, then the whole.\<close>

definition normpath_step :: "nat \<Rightarrow> string list \<Rightarrow> string \<Rightarrow> string list" where
  "normpath_step initial_slashes new_comps cmp =
     (if cmp = [] \<or> cmp = ''.'' then new_comps
      else if cmp \<noteq> ''..'' \<or> (initial_slashes = 0 \<and> new_comps = [])
              \<or> (new_comps \<noteq> [] \<and> last new_comps = ''..'')
      then new_comps @ [cmp]
      else if new_comps \<noteq> [] then butlast new_comps
      else new_comps)"

fun sep_join :: "string list \<Rightarrow> string" where
  "sep_join [] = []"
| "sep_join [x] = x"
| "sep_join (x # y # ys) = x @ ''/'' @ sep_join (y # ys)"

definition normpath :: "string \<Rightarrow> string" where
  "normpath path =
     (if path = [] then ''.''
      else
        let initial_slashes =
              (if startswith path ''/''
               then (if startswith path ''//'' \<and> \<not> startswith path ''///'' then 2 else 1)
               else (0::nat));
            comps = foldl (normpath_step initial_slashes) [] (split path CHR ''/'');
            joined = sep_join comps;
            res = (if 0 < initial_slashes
                   then replicate initial_slashes CHR ''/'' @ joined else joined)
        in if res = [] then ''.'' else res)"

definition abspath :: "os \<Rightarrow> string \<Rightarrow> string" where
  "abspath os path = normpath (if isabs path then path else join (getcwd os) path)"

text \<open>\<^verbatim>\<open>os.path.commonprefix\<close> of two component lists: their longest common prefix.\<close>

fun commonprefix :: "string list \<Rightarrow> string list \<Rightarrow> string list" where
  "commonprefix (x # xs) (y # ys) = (if x = y then x # commonprefix xs ys else [])"
| "commonprefix xs ys = []"

text \<open>\<^verbatim>\<open>os.path.relpath(path, start)\<close>; it raises \<^verbatim>\<open>ValueError\<close> on the empty path.\<close>

definition relpath :: "os \<Rightarrow> string \<Rightarrow> string \<Rightarrow> error + string" where
  "relpath os path start =
     (if path = [] then Inl ValueError
      else
        let start_list = filter (\<lambda>x. x \<noteq> []) (split (abspath os start) CHR ''/'');
            path_list = filter (\<lambda>x. x \<noteq> []) (split (abspath os path) CHR ''/'');
            i = length (commonprefix start_list path_list);
            rel_list = replicate (length start_list - i) ''..'' @ drop i path_list
        in if rel_list = [] then Inr ''.'' else Inr (join_list rel_list))"

section \<open>The index and the link resolver\<close>

type_synonym index = "string \<Rightarrow> string list option"

text \<open>What the script prints, one constructor for each \<^verbatim>\<open>print\<close> of the two
  functions: the values that the message is formatted from.\<close>

datatype event =
    WarnMultiple string "string list"
  | UpdateLink string string string
  | TargetNotFound string string
  | UpdateImg string string string
  | RemoveP string string
  | UpdatedFile string
  | NoChanges string

text \<open>\<^verbatim>\<open>build_html_index\<close>: the inner loop over the files of one directory, then the
  loop over the triples of \<^verbatim>\<open>os.walk\<close>.\<close>

fun index_files :: "os \<Rightarrow> string \<Rightarrow> string \<Rightarrow> string list \<Rightarrow> index \<Rightarrow> error + index" where
  "index_files os project_root root [] index = Inr index"
| "index_files os project_root root (file # files) index =
     (if endswith (lower file) ''.html''
      then (case relpath os (join root file) project_root of
              Inl e \<Rightarrow> Inl e
            | Inr rel_path \<Rightarrow>
                index_files os project_root root files
                  (index(file \<mapsto> (case index file of None \<Rightarrow> [] | Some l \<Rightarrow> l) @ [rel_path])))
      else index_files os project_root root files index)"

fun index_walk :: "os \<Rightarrow> string \<Rightarrow> (string \<times> string list \<times> string list) list
    \<Rightarrow> index \<Rightarrow> error + index" where
  "index_walk os project_root [] index = Inr index"
| "index_walk os project_root ((root, dirs, files) # rest) index =
     (case index_files os project_root root files index of
        Inl e \<Rightarrow> Inl e
      | Inr index' \<Rightarrow> index_walk os project_root rest index')"

definition build_html_index :: "os \<Rightarrow> string \<Rightarrow> error + index" where
  "build_html_index os project_root =
     index_walk os project_root (walk os project_root) Map.empty"

text \<open>\<^verbatim>\<open>find_target_path\<close>: the result is \<open>None\<close> for Python's \<^verbatim>\<open>None\<close>; the events are
  what was printed up to the return or the exception. \<^verbatim>\<open>index[base][0]\<close> raises
  \<^verbatim>\<open>IndexError\<close> on an empty list.\<close>

definition find_target_path ::
    "os \<Rightarrow> string \<Rightarrow> index \<Rightarrow> string \<Rightarrow> (error + string option) \<times> event list" where
  "find_target_path os href index project_root =
     (let normalized_href = lstrip href ''/'';
          candidate_path = join project_root normalized_href
      in if exists os candidate_path
         then (case relpath os candidate_path project_root of
                 Inl e \<Rightarrow> (Inl e, [])
               | Inr r \<Rightarrow> (Inr (Some r), []))
         else
           let base = basename normalized_href
           in (case index base of
                 None \<Rightarrow> (Inr None, [])
               | Some paths \<Rightarrow>
                   let warn = (if length paths > 1 then [WarnMultiple base paths] else [])
                   in (case paths of
                         [] \<Rightarrow> (Inl IndexError, warn)
                       | p # _ \<Rightarrow> (Inr (Some p), warn))))"

section \<open>The parsed document\<close>

text \<open>
  The tree that \<^verbatim>\<open>BeautifulSoup(content, 'html.parser')\<close> returns: text nodes, the
  other strings (comments, declarations), which \<^verbatim>\<open>get_text\<close> leaves out, and
  elements with a name, attributes and children. An attribute value is the string of
  the markup; the parser keeps \<^verbatim>\<open>class\<close> as the list of its whitespace-separated
  parts, which is \<open>split_ws\<close> of that string. A document is the list of the top-level
  nodes. Parsing, and the serialisation \<^verbatim>\<open>str(soup)\<close>, belong to the library and are
  not modelled: the functions below take and return trees.
\<close>

datatype node =
    Text string
  | Comment string
  | Element string "(string \<times> string) list" "node list"

text \<open>\<^verbatim>\<open>tag[key] = value\<close>: the value is replaced in place, a new key goes last.\<close>

fun set_attr :: "string \<Rightarrow> string \<Rightarrow> (string \<times> string) list \<Rightarrow> (string \<times> string) list" where
  "set_attr k v [] = [(k, v)]"
| "set_attr k v ((k', v') # as) =
     (if k' = k then (k, v) # as else (k', v') # set_attr k v as)"

text \<open>\<^verbatim>\<open>soup.find_all(...)\<close>: the elements that satisfy the filter, in document order
  (an element before its descendants).\<close>

fun find_all :: "(node \<Rightarrow> bool) \<Rightarrow> node list \<Rightarrow> node list" where
  "find_all P [] = []"
| "find_all P (Text s # ns) = find_all P ns"
| "find_all P (Comment s # ns) = find_all P ns"
| "find_all P (Element t as cs # ns) =
     (if P (Element t as cs) then [Element t as cs] else []) @ find_all P cs @ find_all P ns"

definition has_name :: "string \<Rightarrow> node \<Rightarrow> bool" where
  "has_name name n = (case n of Element t as cs \<Rightarrow> t = name | _ \<Rightarrow> False)"

text \<open>\<^verbatim>\<open>find_all(name, key=True)\<close>: the name, and the attribute present.\<close>

definition has_attr :: "string \<Rightarrow> string \<Rightarrow> node \<Rightarrow> bool" where
  "has_attr name key n =
     (case n of Element t as cs \<Rightarrow> t = name \<and> map_of as key \<noteq> None | _ \<Rightarrow> False)"

text \<open>\<^verbatim>\<open>find_all(name, key=value)\<close> on a single-valued attribute, and
  \<^verbatim>\<open>find_all(name, class_=value)\<close>: one of the parts of \<^verbatim>\<open>class\<close> is the value.\<close>

definition attr_is :: "string \<Rightarrow> string \<Rightarrow> string \<Rightarrow> node \<Rightarrow> bool" where
  "attr_is name key v n =
     (case n of Element t as cs \<Rightarrow> t = name \<and> map_of as key = Some v | _ \<Rightarrow> False)"

definition has_class :: "string \<Rightarrow> string \<Rightarrow> node \<Rightarrow> bool" where
  "has_class name v n =
     (case n of
        Element t as cs \<Rightarrow>
          t = name \<and> (case map_of as ''class'' of None \<Rightarrow> False | Some c \<Rightarrow> v \<in> set (split_ws c))
      | _ \<Rightarrow> False)"

text \<open>The values of attribute \<open>key\<close> on the elements \<open>find_all(name, key=True)\<close>.\<close>

definition attr_of :: "string \<Rightarrow> node \<Rightarrow> string" where
  "attr_of key n = (case n of Element t as cs \<Rightarrow> the (map_of as key) | _ \<Rightarrow> [])"

definition attr_values :: "string \<Rightarrow> string \<Rightarrow> node list \<Rightarrow> string list" where
  "attr_values name key ns = map (attr_of key) (find_all (has_attr name key) ns)"

text \<open>\<^verbatim>\<open>tag.get_text(strip=True)\<close>: the text nodes below the element in document
  order, each stripped, the empty ones left out, concatenated.\<close>

fun strings :: "node list \<Rightarrow> string list" where
  "strings [] = []"
| "strings (Text s # ns) = s # strings ns"
| "strings (Comment s # ns) = strings ns"
| "strings (Element t as cs # ns) = strings cs @ strings ns"

definition get_text_strip :: "node \<Rightarrow> string" where
  "get_text_strip n = concat (filter (\<lambda>s. s \<noteq> []) (map strip (strings [n])))"

text \<open>\<^verbatim>\<open>tag.contents\<close>: the children of an element.\<close>

definition contents :: "node \<Rightarrow> node list" where
  "contents n = (case n of Element t as cs \<Rightarrow> cs | _ \<Rightarrow> [])"

text \<open>
  \<^verbatim>\<open>for tag in soup.find_all(...): tag.decompose()\<close>: every element that satisfies
  the filter leaves the tree with all its descendants. The list is made before the
  loop, so it holds the matching descendants of a matching element as well; when
  their turn comes they are already destroyed, and \<^verbatim>\<open>decompose\<close> on them changes
  nothing in the tree. \<open>pruned\<close> lists the elements that the loop removes from the tree
  itself, in the order of the loop.
\<close>

fun prune :: "(node \<Rightarrow> bool) \<Rightarrow> node list \<Rightarrow> node list" where
  "prune P [] = []"
| "prune P (Text s # ns) = Text s # prune P ns"
| "prune P (Comment s # ns) = Comment s # prune P ns"
| "prune P (Element t as cs # ns) =
     (if P (Element t as cs) then prune P ns
      else Element t as (prune P cs) # prune P ns)"

fun pruned :: "(node \<Rightarrow> bool) \<Rightarrow> node list \<Rightarrow> node list" where
  "pruned P [] = []"
| "pruned P (Text s # ns) = pruned P ns"
| "pruned P (Comment s # ns) = pruned P ns"
| "pruned P (Element t as cs # ns) =
     (if P (Element t as cs) then Element t as cs # pruned P ns
      else pruned P cs @ pruned P ns)"

text \<open>\<^verbatim>\<open>soup.find(...).decompose()\<close>: only the first match in document order goes.\<close>

fun remove_first :: "(node \<Rightarrow> bool) \<Rightarrow> node list \<Rightarrow> node list" where
  "remove_first P [] = []"
| "remove_first P (Text s # ns) = Text s # remove_first P ns"
| "remove_first P (Comment s # ns) = Comment s # remove_first P ns"
| "remove_first P (Element t as cs # ns) =
     (if P (Element t as cs) then ns
      else if find_all P cs \<noteq> [] then Element t as (remove_first P cs) # ns
      else Element t as cs # remove_first P ns)"

text \<open>\<^verbatim>\<open>for tag in soup.find_all(old): tag.name = new\<close>.\<close>

fun rename :: "string \<Rightarrow> string \<Rightarrow> node list \<Rightarrow> node list" where
  "rename old new [] = []"
| "rename old new (Text s # ns) = Text s # rename old new ns"
| "rename old new (Comment s # ns) = Comment s # rename old new ns"
| "rename old new (Element t as cs # ns) =
     Element (if t = old then new else t) as (rename old new cs) # rename old new ns"

text \<open>
  \<^verbatim>\<open>for tag in soup.find_all(name, key=True): ...\<close> with a body that reads \<^verbatim>\<open>tag[key]\<close>
  and either assigns a new value to it (and sets \<^verbatim>\<open>changed\<close>), leaves it, or raises.
  The body is \<open>f\<close>: from the value to the new value, if one is assigned, with what it
  prints. The result is the tree, whether a value was assigned, and the events; an
  exception ends the loop and keeps what was printed before it.
\<close>

fun rewrite :: "string \<Rightarrow> string \<Rightarrow> (string \<Rightarrow> (error + string option) \<times> event list)
    \<Rightarrow> node list \<Rightarrow> (error + node list \<times> bool) \<times> event list" where
  "rewrite name key f [] = (Inr ([], False), [])"
| "rewrite name key f (Text s # ns) =
     (case rewrite name key f ns of
        (Inl e, l) \<Rightarrow> (Inl e, l)
      | (Inr (ns', c), l) \<Rightarrow> (Inr (Text s # ns', c), l))"
| "rewrite name key f (Comment s # ns) =
     (case rewrite name key f ns of
        (Inl e, l) \<Rightarrow> (Inl e, l)
      | (Inr (ns', c), l) \<Rightarrow> (Inr (Comment s # ns', c), l))"
| "rewrite name key f (Element t as cs # ns) =
     (case (if t = name
            then (case map_of as key of None \<Rightarrow> (Inr None, []) | Some v \<Rightarrow> f v)
            else (Inr None, [])) of
        (Inl e, l0) \<Rightarrow> (Inl e, l0)
      | (Inr r, l0) \<Rightarrow>
          (case rewrite name key f cs of
             (Inl e, l1) \<Rightarrow> (Inl e, l0 @ l1)
           | (Inr (cs', c1), l1) \<Rightarrow>
               (case rewrite name key f ns of
                  (Inl e, l2) \<Rightarrow> (Inl e, l0 @ l1 @ l2)
                | (Inr (ns', c2), l2) \<Rightarrow>
                    (Inr (Element t (case r of None \<Rightarrow> as | Some v' \<Rightarrow> set_attr key v' as) cs'
                            # ns',
                          r \<noteq> None \<or> c1 \<or> c2),
                     l0 @ l1 @ l2))))"

section \<open>fix_links_in_html\<close>

text \<open>The body of the loop over \<^verbatim>\<open>soup.find_all('a', href=True)\<close>. \<^verbatim>\<open>if target_rel:\<close> is
  false on \<^verbatim>\<open>None\<close> and on the empty string.\<close>

definition skipped_href :: "string \<Rightarrow> bool" where
  "skipped_href href =
     (startswith href ''#'' \<or> startswith href ''http://'' \<or> startswith href ''https://'')"

definition a_body :: "os \<Rightarrow> string \<Rightarrow> string \<Rightarrow> index \<Rightarrow> string
    \<Rightarrow> (error + string option) \<times> event list" where
  "a_body os file_path project_root index href =
     (if skipped_href href then (Inr None, [])
      else
        (case find_target_path os href index project_root of
           (Inl e, l) \<Rightarrow> (Inl e, l)
         | (Inr target_rel, l) \<Rightarrow>
             (if target_rel \<noteq> None \<and> target_rel \<noteq> Some []
              then
                (let target_full_path = join project_root (the target_rel)
                 in (case relpath os target_full_path (dirname file_path) of
                       Inl e \<Rightarrow> (Inl e, l)
                     | Inr new_href \<Rightarrow>
                         (if new_href \<noteq> href
                          then (Inr (Some new_href), l @ [UpdateLink file_path href new_href])
                          else (Inr None, l))))
              else (Inr None, l @ [TargetNotFound file_path href]))))"

text \<open>The body of the loop over \<^verbatim>\<open>soup.find_all('img', src=True)\<close>.\<close>

definition img_body :: "string \<Rightarrow> string \<Rightarrow> (error + string option) \<times> event list" where
  "img_body file_path src =
     (if startswith src ''http://'' \<or> startswith src ''https://'' then (Inr None, [])
      else if CHR ''/'' \<notin> set src
      then
        (let base = fst (splitext src);
             new_src = ''../Assets/'' @ base @ ''@2x.png''
         in if new_src \<noteq> src
            then (Inr (Some new_src), [UpdateImg file_path src new_src])
            else (Inr None, []))
      else (Inr None, []))"

definition a_pass :: "os \<Rightarrow> string \<Rightarrow> string \<Rightarrow> index \<Rightarrow> node list
    \<Rightarrow> (error + node list \<times> bool) \<times> event list" where
  "a_pass os file_path project_root index soup =
     rewrite ''a'' ''href'' (a_body os file_path project_root index) soup"

definition img_pass :: "string \<Rightarrow> node list \<Rightarrow> (error + node list \<times> bool) \<times> event list" where
  "img_pass file_path soup = rewrite ''img'' ''src'' (img_body file_path) soup"

text \<open>The four edits of \<^verbatim>\<open>The-Swift-Programming-Language.html\<close>, each with the value
  it gives to \<^verbatim>\<open>changed\<close>. A tag is true in a condition whatever its contents, so
  \<^verbatim>\<open>if h2_topics and ...\<close> asks whether \<^verbatim>\<open>find\<close> found an element.\<close>

definition designated :: "string \<Rightarrow> bool" where
  "designated file_path = (basename file_path = ''The-Swift-Programming-Language.html'')"

definition remove_citations :: "node list \<Rightarrow> node list \<times> bool" where
  "remove_citations soup =
     (prune (has_class ''span'' ''citation'') soup,
      find_all (has_class ''span'' ''citation'') soup \<noteq> [])"

definition remove_topics :: "node list \<Rightarrow> node list \<times> bool" where
  "remove_topics soup =
     (case find_all (attr_is ''h2'' ''id'' ''topics'') soup of
        [] \<Rightarrow> (soup, False)
      | h2_topics # _ \<Rightarrow>
          (if get_text_strip h2_topics = ''Topics''
           then (remove_first (attr_is ''h2'' ''id'' ''topics'') soup, True)
           else (soup, False)))"

definition rename_h3 :: "node list \<Rightarrow> node list \<times> bool" where
  "rename_h3 soup = (rename ''h3'' ''h2'' soup, find_all (has_name ''h3'') soup \<noteq> [])"

definition unwanted_texts :: "string list" where
  "unwanted_texts = [''{}'', ''(scope:global){(disabled)(disabled)(disabled)}'']"

definition normalized :: "node \<Rightarrow> string" where
  "normalized p = concat (split_ws (get_text_strip p))"

definition unwanted_p :: "node \<Rightarrow> bool" where
  "unwanted_p n = (has_name ''p'' n \<and> normalized n \<in> set unwanted_texts)"

definition remove_unwanted_p :: "string \<Rightarrow> node list \<Rightarrow> (node list \<times> bool) \<times> event list" where
  "remove_unwanted_p file_path soup =
     ((prune unwanted_p soup, pruned unwanted_p soup \<noteq> []),
      map (\<lambda>p. RemoveP file_path (get_text_strip p)) (pruned unwanted_p soup))"

definition structural_edits :: "string \<Rightarrow> node list \<Rightarrow> (node list \<times> bool) \<times> event list" where
  "structural_edits file_path soup =
     (let (s1, c1) = remove_citations soup;
          (s2, c2) = remove_topics s1;
          (s3, c3) = rename_h3 s2;
          ((s4, c4), l) = remove_unwanted_p file_path s3
      in ((s4, c1 \<or> c2 \<or> c3 \<or> c4), l))"

text \<open>The function up to the test of \<^verbatim>\<open>changed\<close>: the tree in memory, the flag, the
  events.\<close>

definition fix_soup :: "os \<Rightarrow> string \<Rightarrow> string \<Rightarrow> index \<Rightarrow> node list
    \<Rightarrow> (error + node list \<times> bool) \<times> event list" where
  "fix_soup os file_path project_root index soup =
     (case a_pass os file_path project_root index soup of
        (Inl e, l) \<Rightarrow> (Inl e, l)
      | (Inr (s1, c1), l1) \<Rightarrow>
          (case img_pass file_path s1 of
             (Inl e, l2) \<Rightarrow> (Inl e, l1 @ l2)
           | (Inr (s2, c2), l2) \<Rightarrow>
               (if designated file_path
                then (case structural_edits file_path s2 of
                        ((s3, c3), l3) \<Rightarrow> (Inr (s3, c1 \<or> c2 \<or> c3), l1 @ l2 @ l3))
                else (Inr (s2, c1 \<or> c2), l1 @ l2))))"

text \<open>What happens to the file: it is left as it was, or overwritten with the
  serialisation of a tree.\<close>

datatype disk = Untouched | Written "node list"

definition fix_links_in_html :: "os \<Rightarrow> string \<Rightarrow> string \<Rightarrow> index \<Rightarrow> node list
    \<Rightarrow> (error + disk) \<times> event list" where
  "fix_links_in_html os file_path project_root index soup =
     (case fix_soup os file_path project_root index soup of
        (Inl e, l) \<Rightarrow> (Inl e, l)
      | (Inr (soup', changed), l) \<Rightarrow>
          (if changed then (Inr (Written soup'), l @ [UpdatedFile file_path])
           else (Inr Untouched, l @ [NoChanges file_path])))"

section \<open>Observations on the loops\<close>

text \<open>
  Two functions for stating what a loop \<open>rewrite\<close> does. \<open>visit\<close> is what happens when the
  traversal reaches an element: the body of the loop runs when the element is in the list
  of \<^verbatim>\<open>find_all\<close>, nothing happens otherwise. \<open>after_body f v\<close> is the value of the attribute
  once the body \<open>f\<close> has run on an element where it was \<open>v\<close>.
\<close>

definition visit :: "string \<Rightarrow> string \<Rightarrow> (string \<Rightarrow> (error + string option) \<times> event list)
    \<Rightarrow> string \<Rightarrow> (string \<times> string) list \<Rightarrow> (error + string option) \<times> event list" where
  "visit name key f t as =
     (if t = name then (case map_of as key of None \<Rightarrow> (Inr None, []) | Some v \<Rightarrow> f v)
      else (Inr None, []))"

definition after_body :: "(string \<Rightarrow> (error + string option) \<times> event list) \<Rightarrow> string \<Rightarrow> string" where
  "after_body f v = (case fst (f v) of Inr (Some v') \<Rightarrow> v' | _ \<Rightarrow> v)"

section \<open>A sample project\<close>

text \<open>
  A small tree under \<^verbatim>\<open>/r\<close>, for evaluating the functions: two files named
  \<^verbatim>\<open>x.html\<close> in the directories \<^verbatim>\<open>a\<close> and \<^verbatim>\<open>b\<close>, the document \<^verbatim>\<open>sub/doc.html\<close>, the book
  \<^verbatim>\<open>The-Swift-Programming-Language.html\<close> and the picture \<^verbatim>\<open>Assets/pic.png\<close>.
\<close>

definition paths_ex :: "string list" where
  "paths_ex =
     [''/r'', ''/r/'', ''/r/a'', ''/r/b'', ''/r/sub'', ''/r/Assets'',
      ''/r/a/x.html'', ''/r/b/x.html'', ''/r/sub/doc.html'', ''/r/Assets/pic.png'',
      ''/r/The-Swift-Programming-Language.html'']"

definition walk_ex :: "(string \<times> string list \<times> string list) list" where
  "walk_ex =
     [(''/r'', [''a'', ''b'', ''sub'', ''Assets''], [''The-Swift-Programming-Language.html'']),
      (''/r/a'', [], [''x.html'']),
      (''/r/b'', [], [''x.html'']),
      (''/r/sub'', [], [''doc.html'']),
      (''/r/Assets'', [], [''pic.png''])]"

definition os_ex :: os where
  "os_ex = \<lparr>exists = (\<lambda>p. p \<in> set paths_ex), getcwd = ''/home'', walk = (\<lambda>p. walk_ex)\<rparr>"

definition index_ex :: index where
  "index_ex =
     [''The-Swift-Programming-Language.html'' \<mapsto> [''The-Swift-Programming-Language.html''],
      ''x.html'' \<mapsto> [''a/x.html'', ''b/x.html''],
      ''doc.html'' \<mapsto> [''sub/doc.html'']]"

definition doc_ex :: "node list" where
  "doc_ex =
     [Element ''p'' []
        [Text ''see '',
         Element ''a'' [(''href'', ''b/x.html'')] [Text ''x''],
         Element ''a'' [(''href'', ''#top'')] [Text ''top''],
         Element ''a'' [(''href'', ''missing.html'')] [Text ''gone''],
         Element ''img'' [(''src'', ''Foo.png'')] [],
         Element ''img'' [(''src'', ''sub/Foo.png'')] []]]"

text \<open>The tree and the output that \<open>fix_links_in_html\<close> gives for \<open>doc_ex\<close>, as the
  document \<^verbatim>\<open>/r/sub/doc.html\<close>.\<close>

definition doc_ex_fixed :: "node list" where
  "doc_ex_fixed =
     [Element ''p'' []
        [Text ''see '',
         Element ''a'' [(''href'', ''../b/x.html'')] [Text ''x''],
         Element ''a'' [(''href'', ''#top'')] [Text ''top''],
         Element ''a'' [(''href'', ''missing.html'')] [Text ''gone''],
         Element ''img'' [(''src'', ''../Assets/Foo@2x.png'')] [],
         Element ''img'' [(''src'', ''sub/Foo.png'')] []]]"

definition log_ex :: "event list" where
  "log_ex =
     [UpdateLink ''/r/sub/doc.html'' ''b/x.html'' ''../b/x.html'',
      TargetNotFound ''/r/sub/doc.html'' ''missing.html'',
      UpdateImg ''/r/sub/doc.html'' ''Foo.png'' ''../Assets/Foo@2x.png'',
      UpdatedFile ''/r/sub/doc.html'']"

text \<open>A tree for the book, with the two placeholder paragraphs and a heading of
  level three, and what \<open>fix_links_in_html\<close> makes of it; then the tree that a second
  run over \<^verbatim>\<open>/r/sub/doc.html\<close> gives.\<close>

definition book_ex :: "node list" where
  "book_ex =
     [Element ''h3'' [(''id'', ''intro'')] [Text ''Intro''],
      Element ''p'' [] [Text '' {'', Text (''  '' @ [CHR 0x0A] @ ''} '')],
      Element ''p'' [] [Text ''see '', Element ''a'' [(''href'', ''x.html'')] [Text ''x'']],
      Element ''div'' []
        [Element ''p'' [(''class'', ''note'')]
           [Text ''(scope: global) { (disabled) (disabled)'', Text '' (disabled) }'']]]"

definition book_ex_fixed :: "node list" where
  "book_ex_fixed =
     [Element ''h2'' [(''id'', ''intro'')] [Text ''Intro''],
      Element ''p'' [] [Text ''see '', Element ''a'' [(''href'', ''a/x.html'')] [Text ''x'']],
      Element ''div'' [] []]"

definition book_log_ex :: "event list" where
  "book_log_ex =
     [WarnMultiple ''x.html'' [''a/x.html'', ''b/x.html''],
      UpdateLink ''/r/The-Swift-Programming-Language.html'' ''x.html'' ''a/x.html'',
      RemoveP ''/r/The-Swift-Programming-Language.html'' ''{}'',
      RemoveP ''/r/The-Swift-Programming-Language.html''
        ''(scope: global) { (disabled) (disabled)(disabled) }'']"


section \<open>Properties of the link resolver\<close>

lemma relpath_Inr: "path \<noteq> [] \<Longrightarrow> \<exists>r. relpath os path start = Inr r"
  by (simp add: relpath_def Let_def)

lemma find_target_path_exact:
  assumes "exists os (join project_root (lstrip href ''/''))"
    and "relpath os (join project_root (lstrip href ''/'')) project_root = Inr r"
  shows "find_target_path os href index project_root = (Inr (Some r), [])"
  using assms by (simp add: find_target_path_def Let_def)

text \<open>
  Claim C1. When the href, with its leading separators removed and joined to the
  root, names something that exists, \<open>find_target_path\<close> returns the path of that
  entry relative to the root. The index is not consulted: the result is the same for
  every index, also one that has several entries for the basename of the href, and no
  warning is printed.
\<close>

theorem exact_match_priority:
  assumes "exists os (join project_root (lstrip href ''/''))"
    and "join project_root (lstrip href ''/'') \<noteq> []"
  shows "\<exists>r. relpath os (join project_root (lstrip href ''/'')) project_root = Inr r
           \<and> find_target_path os href index project_root = (Inr (Some r), [])"
proof -
  from assms(2) obtain r
    where r: "relpath os (join project_root (lstrip href ''/'')) project_root = Inr r"
    using relpath_Inr by blast
  with assms(1) show ?thesis
    by (auto simp: find_target_path_exact)
qed

theorem exact_match_priority_witness:
  "exists os_ex (join ''/r'' (lstrip ''/b/x.html'' ''/''))
   \<and> index_ex (basename (lstrip ''/b/x.html'' ''/'')) = Some [''a/x.html'', ''b/x.html'']
   \<and> find_target_path os_ex ''/b/x.html'' index_ex ''/r'' = (Inr (Some ''b/x.html''), [])"
proof -
  have h1: "exists os_ex (join ''/r'' (lstrip ''/b/x.html'' ''/''))" by code_simp
  have h2: "join ''/r'' (lstrip ''/b/x.html'' ''/'') \<noteq> []" by code_simp
  have h3: "index_ex (basename (lstrip ''/b/x.html'' ''/'')) = Some [''a/x.html'', ''b/x.html'']"
    by code_simp
  have r: "relpath os_ex (join ''/r'' (lstrip ''/b/x.html'' ''/'')) ''/r'' = Inr ''b/x.html''"
    by code_simp
  from exact_match_priority [OF h1 h2, of index_ex] r
  have "find_target_path os_ex ''/b/x.html'' index_ex ''/r'' = (Inr (Some ''b/x.html''), [])"
    by auto
  with h1 h3 show ?thesis by blast
qed

text \<open>
  Claim C2. When nothing exists at the literal path and the index has more than one
  entry for the basename of the normalised href, \<open>find_target_path\<close> returns the first
  entry of the list and prints one warning that carries the basename and the whole
  list of candidates.
\<close>

theorem ambiguous_basename_first:
  assumes "\<not> exists os (join project_root (lstrip href ''/''))"
    and "index (basename (lstrip href ''/'')) = Some paths"
    and "length paths > 1"
  shows "find_target_path os href index project_root =
           (Inr (Some (hd paths)), [WarnMultiple (basename (lstrip href ''/'')) paths])"
  using assms by (cases paths) (simp_all add: find_target_path_def Let_def)

theorem ambiguous_basename_first_witness:
  "find_target_path os_ex ''../b/x.html'' index_ex ''/r'' =
     (Inr (Some ''a/x.html''), [WarnMultiple ''x.html'' [''a/x.html'', ''b/x.html'']])"
proof -
  have h1: "\<not> exists os_ex (join ''/r'' (lstrip ''../b/x.html'' ''/''))" by code_simp
  have h2: "index_ex (basename (lstrip ''../b/x.html'' ''/'')) = Some [''a/x.html'', ''b/x.html'']"
    by code_simp
  have h3: "length [''a/x.html'', ''b/x.html''] > 1" by simp
  have b: "basename (lstrip ''../b/x.html'' ''/'') = ''x.html''" by code_simp
  from ambiguous_basename_first
         [where os = os_ex and project_root = "''/r''" and href = "''../b/x.html''"
            and index = index_ex and paths = "[''a/x.html'', ''b/x.html'']", OF h1 h2 h3] b
  show ?thesis by simp
qed

lemma lstrip_Cons: "lstrip (CHR ''/'' # href) ''/'' = lstrip href ''/''"
  by (simp add: lstrip_def)

lemma lstrip_replicate: "lstrip (replicate n CHR ''/'' @ href) ''/'' = lstrip href ''/''"
  by (induction n) (simp_all add: lstrip_Cons)

lemma startswith_single: "startswith s [c] = (s \<noteq> [] \<and> hd s = c)"
  by (cases s) (auto simp: startswith_def)

lemma lstrip_not_startswith: "\<not> startswith (lstrip href ''/'') ''/''"
proof
  assume "startswith (lstrip href ''/'') ''/''"
  then have ne: "dropWhile (\<lambda>c. c \<in> set ''/'') href \<noteq> []"
    and h: "hd (dropWhile (\<lambda>c. c \<in> set ''/'') href) = CHR ''/''"
    unfolding lstrip_def startswith_single by blast+
  from ne have "\<not> hd (dropWhile (\<lambda>c. c \<in> set ''/'') href) \<in> set ''/''"
    by (rule hd_dropWhile)
  with h show False by simp
qed

text \<open>
  Claim C3 says that exactly one leading separator is stripped, so that an href with
  two or more keeps all but one. The code calls \<^verbatim>\<open>href.lstrip('/')\<close>, which removes the
  whole leading run: \<^verbatim>\<open>//b/x.html\<close> is normalised to \<^verbatim>\<open>b/x.html\<close>, not to \<^verbatim>\<open>/b/x.html\<close>,
  and is resolved by the exact match inside the root.
\<close>

theorem strips_one_separator_counterexample:
  "lstrip ''//b/x.html'' ''/'' = ''b/x.html''
   \<and> lstrip ''//b/x.html'' ''/'' \<noteq> ''/b/x.html''
   \<and> find_target_path os_ex ''//b/x.html'' index_ex ''/r'' = (Inr (Some ''b/x.html''), [])"
proof -
  have n: "lstrip ''//b/x.html'' ''/'' = ''b/x.html''" by code_simp
  have e: "exists os_ex (join ''/r'' (lstrip ''//b/x.html'' ''/''))" by code_simp
  have r: "relpath os_ex (join ''/r'' (lstrip ''//b/x.html'' ''/'')) ''/r'' = Inr ''b/x.html''"
    by code_simp
  from e r
  have "find_target_path os_ex ''//b/x.html'' index_ex ''/r'' = (Inr (Some ''b/x.html''), [])"
    by (rule find_target_path_exact)
  with n show ?thesis by simp
qed

text \<open>
  Claim C3, amended. \<open>find_target_path\<close> strips every leading separator: any number of
  separators in front of an href gives the same normalised href and the same result,
  and the normalised href never starts with a separator.
\<close>

theorem strips_all_leading_separators:
  "lstrip (replicate n CHR ''/'' @ href) ''/'' = lstrip href ''/''
   \<and> \<not> startswith (lstrip href ''/'') ''/''
   \<and> find_target_path os (replicate n CHR ''/'' @ href) index project_root
       = find_target_path os href index project_root"
  unfolding find_target_path_def lstrip_replicate
  using lstrip_not_startswith by blast

lemma index_files_keys:
  assumes "index_files os project_root root files index = Inr index'"
    and "\<And>k v. index k = Some v \<Longrightarrow> endswith (lower k) ''.html'' \<and> v \<noteq> []"
    and "index' k = Some v"
  shows "endswith (lower k) ''.html'' \<and> v \<noteq> []"
  using assms
proof (induction files arbitrary: index)
  case Nil
  then show ?case by simp
next
  case (Cons f fs)
  show ?case
  proof (cases "endswith (lower f) ''.html''")
    case False
    with Cons.prems have "index_files os project_root root fs index = Inr index'" by simp
    from Cons.IH [OF this Cons.prems(2) Cons.prems(3)] show ?thesis by simp
  next
    case True
    with Cons.prems(1) obtain rel_path where
      rel: "relpath os (join root f) project_root = Inr rel_path"
      and rest: "index_files os project_root root fs
            (index(f \<mapsto> (case index f of None \<Rightarrow> [] | Some l \<Rightarrow> l) @ [rel_path])) = Inr index'"
      by (auto split: sum.splits)
    show ?thesis
    proof (rule Cons.IH [OF rest _ Cons.prems(3)])
      fix k v
      assume "(index(f \<mapsto> (case index f of None \<Rightarrow> [] | Some l \<Rightarrow> l) @ [rel_path])) k = Some v"
      then show "endswith (lower k) ''.html'' \<and> v \<noteq> []"
        using True Cons.prems(2) by (auto split: if_splits)
    qed
  qed
qed

lemma index_walk_keys:
  assumes "index_walk os project_root w index = Inr index'"
    and "\<And>k v. index k = Some v \<Longrightarrow> endswith (lower k) ''.html'' \<and> v \<noteq> []"
    and "index' k = Some v"
  shows "endswith (lower k) ''.html'' \<and> v \<noteq> []"
  using assms
proof (induction w arbitrary: index)
  case Nil
  then show ?case by simp
next
  case (Cons x w)
  obtain root dirs files where x: "x = (root, dirs, files)" by (cases x) auto
  from Cons.prems(1) x obtain index1 where
    f: "index_files os project_root root files index = Inr index1"
    and r: "index_walk os project_root w index1 = Inr index'"
    by (auto split: sum.splits)
  show ?case
  proof (rule Cons.IH [OF r _ Cons.prems(3)])
    fix k v assume "index1 k = Some v"
    then show "endswith (lower k) ''.html'' \<and> v \<noteq> []"
      using index_files_keys [OF f Cons.prems(2)] by blast
  qed
qed

lemma build_html_index_keys:
  assumes "build_html_index os project_root = Inr index" and "index k = Some v"
  shows "endswith (lower k) ''.html'' \<and> v \<noteq> []"
  using index_walk_keys [of os project_root "walk os project_root" Map.empty index k v] assms
  by (simp add: build_html_index_def)

text \<open>
  Claim C10. The exact match asks only whether something exists at the path. For an
  index built by \<open>build_html_index\<close>, whose keys all end in \<^verbatim>\<open>.html\<close>, an href whose
  basename does not end in \<^verbatim>\<open>.html\<close> (a picture, a directory) has no entry in the index;
  when it exists, \<open>find_target_path\<close> returns its path relative to the root, the value of
  \<^verbatim>\<open>os.path.relpath\<close> on the joined path, and prints nothing.
\<close>

theorem exact_match_any_entry:
  assumes "build_html_index os project_root = Inr index"
    and "exists os (join project_root (lstrip href ''/''))"
    and "join project_root (lstrip href ''/'') \<noteq> []"
    and "\<not> endswith (lower (basename (lstrip href ''/''))) ''.html''"
  shows "index (basename (lstrip href ''/'')) = None
         \<and> (\<exists>r. relpath os (join project_root (lstrip href ''/'')) project_root = Inr r
                \<and> find_target_path os href index project_root = (Inr (Some r), []))"
proof -
  have "index (basename (lstrip href ''/'')) = None"
  proof (cases "index (basename (lstrip href ''/''))")
    case (Some v)
    from build_html_index_keys [OF assms(1) Some] assms(4) show ?thesis by simp
  qed simp
  moreover from assms(3) obtain r
    where r: "relpath os (join project_root (lstrip href ''/'')) project_root = Inr r"
    using relpath_Inr by blast
  with assms(2) have "find_target_path os href index project_root = (Inr (Some r), [])"
    by (rule find_target_path_exact)
  ultimately show ?thesis using r by blast
qed

theorem exact_match_any_entry_witness:
  "projr (build_html_index os_ex ''/r'') (basename (lstrip ''Assets/pic.png'' ''/'')) = None
   \<and> relpath os_ex (join ''/r'' (lstrip ''Assets/pic.png'' ''/'')) ''/r'' = Inr ''Assets/pic.png''
   \<and> find_target_path os_ex ''Assets/pic.png'' (projr (build_html_index os_ex ''/r'')) ''/r''
        = (Inr (Some ''Assets/pic.png''), [])"
proof -
  have "\<not> isl (build_html_index os_ex ''/r'')" by code_simp
  then have h1: "build_html_index os_ex ''/r'' = Inr (projr (build_html_index os_ex ''/r''))"
    by simp
  have h2: "exists os_ex (join ''/r'' (lstrip ''Assets/pic.png'' ''/''))" by code_simp
  have h3: "join ''/r'' (lstrip ''Assets/pic.png'' ''/'') \<noteq> []" by code_simp
  have h4: "\<not> endswith (lower (basename (lstrip ''Assets/pic.png'' ''/''))) ''.html''" by code_simp
  have r: "relpath os_ex (join ''/r'' (lstrip ''Assets/pic.png'' ''/'')) ''/r'' = Inr ''Assets/pic.png''"
    by code_simp
  from exact_match_any_entry [OF h1 h2 h3 h4] r show ?thesis by auto
qed

section \<open>Properties of the loops over the elements\<close>

lemma map_of_set_attr: "map_of (set_attr k v as) k = Some v"
  by (induction as) auto

lemma attr_values_Nil [simp]: "attr_values name key [] = []"
  by (simp add: attr_values_def)

lemma attr_values_Text [simp]: "attr_values name key (Text s # ns) = attr_values name key ns"
  by (simp add: attr_values_def)

lemma attr_values_Comment [simp]: "attr_values name key (Comment s # ns) = attr_values name key ns"
  by (simp add: attr_values_def)

lemma attr_values_Element:
  "attr_values name key (Element t as cs # ns) =
     (if t = name \<and> map_of as key \<noteq> None then [the (map_of as key)] else [])
     @ attr_values name key cs @ attr_values name key ns"
  by (simp add: attr_values_def has_attr_def attr_of_def)

lemma attr_values_hit:
  "t = name \<Longrightarrow> map_of as key = Some v \<Longrightarrow>
   attr_values name key (Element t as cs # ns) = v # attr_values name key cs @ attr_values name key ns"
  by (simp add: attr_values_Element)

lemma attr_values_miss:
  "t \<noteq> name \<or> map_of as key = None \<Longrightarrow>
   attr_values name key (Element t as cs # ns) = attr_values name key cs @ attr_values name key ns"
  by (auto simp: attr_values_Element)

lemma visit_hit: "t = name \<Longrightarrow> map_of as key = Some v \<Longrightarrow> visit name key f t as = f v"
  by (simp add: visit_def)

lemma visit_miss: "t \<noteq> name \<or> map_of as key = None \<Longrightarrow> visit name key f t as = (Inr None, [])"
  by (auto simp: visit_def)

lemma rewrite_Text_Inr:
  "rewrite name key f (Text s # ns) = (Inr (ms, c), l)
   \<Longrightarrow> \<exists>ns'. rewrite name key f ns = (Inr (ns', c), l) \<and> ms = Text s # ns'"
  by (auto split: prod.splits sum.splits)

lemma rewrite_Comment_Inr:
  "rewrite name key f (Comment s # ns) = (Inr (ms, c), l)
   \<Longrightarrow> \<exists>ns'. rewrite name key f ns = (Inr (ns', c), l) \<and> ms = Comment s # ns'"
  by (auto split: prod.splits sum.splits)

lemma rewrite_Element:
  "rewrite name key f (Element t as cs # ns) =
     (case visit name key f t as of
        (Inl e, l0) \<Rightarrow> (Inl e, l0)
      | (Inr r, l0) \<Rightarrow>
          (case rewrite name key f cs of
             (Inl e, l1) \<Rightarrow> (Inl e, l0 @ l1)
           | (Inr (cs', c1), l1) \<Rightarrow>
               (case rewrite name key f ns of
                  (Inl e, l2) \<Rightarrow> (Inl e, l0 @ l1 @ l2)
                | (Inr (ns', c2), l2) \<Rightarrow>
                    (Inr (Element t (case r of None \<Rightarrow> as | Some v' \<Rightarrow> set_attr key v' as) cs'
                            # ns',
                          r \<noteq> None \<or> c1 \<or> c2),
                     l0 @ l1 @ l2))))"
  unfolding visit_def by (subst rewrite.simps) (rule refl)

lemma rewrite_Element_Inr:
  assumes "rewrite name key f (Element t as cs # ns) = (Inr (ms, c), l)"
  shows "\<exists>r l0 cs' c1 l1 ns' c2 l2.
           visit name key f t as = (Inr r, l0)
         \<and> rewrite name key f cs = (Inr (cs', c1), l1)
         \<and> rewrite name key f ns = (Inr (ns', c2), l2)
         \<and> ms = Element t (case r of None \<Rightarrow> as | Some v' \<Rightarrow> set_attr key v' as) cs' # ns'
         \<and> c = (r \<noteq> None \<or> c1 \<or> c2) \<and> l = l0 @ l1 @ l2"
  using assms unfolding rewrite_Element
  by (auto split: prod.splits sum.splits)

lemma rewrite_values:
  "rewrite name key f ns = (Inr (ns', c), l)
   \<Longrightarrow> attr_values name key ns' = map (after_body f) (attr_values name key ns)"
proof (induction ns arbitrary: ns' c l rule: strings.induct)
  case 1
  then show ?case by simp
next
  case (2 s ns)
  from rewrite_Text_Inr [OF 2(2)] 2(1) show ?case by auto
next
  case (3 s ns)
  from rewrite_Comment_Inr [OF 3(2)] 3(1) show ?case by auto
next
  case (4 t as cs ns)
  from rewrite_Element_Inr [OF 4(3)] obtain r l0 cs' c1 l1 ms c2 l2 where
    v: "visit name key f t as = (Inr r, l0)"
    and cs: "rewrite name key f cs = (Inr (cs', c1), l1)"
    and ns: "rewrite name key f ns = (Inr (ms, c2), l2)"
    and eq: "ns' = Element t (case r of None \<Rightarrow> as | Some v' \<Rightarrow> set_attr key v' as) cs' # ms"
    by blast
  note ih = 4(1) [OF cs] 4(2) [OF ns]
  show ?case
  proof (cases "t = name \<and> map_of as key \<noteq> None")
    case True
    then obtain v where hit: "t = name" "map_of as key = Some v" by auto
    with v have fv: "f v = (Inr r, l0)" by (simp add: visit_hit)
    have "map_of (case r of None \<Rightarrow> as | Some v' \<Rightarrow> set_attr key v' as) key = Some (after_body f v)"
      using hit fv by (cases r) (simp_all add: after_body_def map_of_set_attr)
    with hit ih eq show ?thesis by (simp add: attr_values_hit)
  next
    case False
    then have miss: "t \<noteq> name \<or> map_of as key = None" by blast
    with v have "r = None" by (simp add: visit_miss)
    with miss ih eq show ?thesis by (simp add: attr_values_miss)
  qed
qed

lemma rewrite_log:
  "rewrite name key f ns = (Inr (ns', c), l)
   \<Longrightarrow> l = concat (map (\<lambda>v. snd (f v)) (attr_values name key ns))"
proof (induction ns arbitrary: ns' c l rule: strings.induct)
  case 1
  then show ?case by simp
next
  case (2 s ns)
  from rewrite_Text_Inr [OF 2(2)] 2(1) show ?case by auto
next
  case (3 s ns)
  from rewrite_Comment_Inr [OF 3(2)] 3(1) show ?case by auto
next
  case (4 t as cs ns)
  from rewrite_Element_Inr [OF 4(3)] obtain r l0 cs' c1 l1 ms c2 l2 where
    v: "visit name key f t as = (Inr r, l0)"
    and cs: "rewrite name key f cs = (Inr (cs', c1), l1)"
    and ns: "rewrite name key f ns = (Inr (ms, c2), l2)"
    and eq: "l = l0 @ l1 @ l2"
    by blast
  note ih = 4(1) [OF cs] 4(2) [OF ns]
  show ?case
  proof (cases "t = name \<and> map_of as key \<noteq> None")
    case True
    then obtain v where hit: "t = name" "map_of as key = Some v" by auto
    with v have fv: "f v = (Inr r, l0)" by (simp add: visit_hit)
    with hit ih eq show ?thesis by (simp add: attr_values_hit)
  next
    case False
    then have miss: "t \<noteq> name \<or> map_of as key = None" by blast
    with v have "l0 = []" by (simp add: visit_miss)
    with miss ih eq show ?thesis by (simp add: attr_values_miss)
  qed
qed

lemma rewrite_changed:
  "rewrite name key f ns = (Inr (ns', c), l)
   \<Longrightarrow> c = (\<exists>v \<in> set (attr_values name key ns). \<exists>v'. fst (f v) = Inr (Some v'))"
proof (induction ns arbitrary: ns' c l rule: strings.induct)
  case 1
  then show ?case by simp
next
  case (2 s ns)
  from rewrite_Text_Inr [OF 2(2)] 2(1) show ?case by auto
next
  case (3 s ns)
  from rewrite_Comment_Inr [OF 3(2)] 3(1) show ?case by auto
next
  case (4 t as cs ns)
  from rewrite_Element_Inr [OF 4(3)] obtain r l0 cs' c1 l1 ms c2 l2 where
    v: "visit name key f t as = (Inr r, l0)"
    and cs: "rewrite name key f cs = (Inr (cs', c1), l1)"
    and ns: "rewrite name key f ns = (Inr (ms, c2), l2)"
    and eq: "c = (r \<noteq> None \<or> c1 \<or> c2)"
    by blast
  note ih = 4(1) [OF cs] 4(2) [OF ns]
  show ?case
  proof (cases "t = name \<and> map_of as key \<noteq> None")
    case True
    then obtain v where hit: "t = name" "map_of as key = Some v" by auto
    with v have fv: "f v = (Inr r, l0)" by (simp add: visit_hit)
    then have "(r \<noteq> None) = (\<exists>v'. fst (f v) = Inr (Some v'))" by (cases r) simp_all
    with hit ih eq show ?thesis by (auto simp: attr_values_hit)
  next
    case False
    then have miss: "t \<noteq> name \<or> map_of as key = None" by blast
    with v have "r = None" by (simp add: visit_miss)
    with miss ih eq show ?thesis by (auto simp: attr_values_miss)
  qed
qed

lemma rewrite_unchanged:
  "rewrite name key f ns = (Inr (ns', False), l) \<Longrightarrow> ns' = ns"
proof (induction ns arbitrary: ns' l rule: strings.induct)
  case 1
  then show ?case by simp
next
  case (2 s ns)
  from rewrite_Text_Inr [OF 2(2)] 2(1) show ?case by auto
next
  case (3 s ns)
  from rewrite_Comment_Inr [OF 3(2)] 3(1) show ?case by auto
next
  case (4 t as cs ns)
  from rewrite_Element_Inr [OF 4(3)] obtain r l0 cs' c1 l1 ms c2 l2 where
    cs: "rewrite name key f cs = (Inr (cs', c1), l1)"
    and ns: "rewrite name key f ns = (Inr (ms, c2), l2)"
    and eq: "ns' = Element t (case r of None \<Rightarrow> as | Some v' \<Rightarrow> set_attr key v' as) cs' # ms"
    and c: "False = (r \<noteq> None \<or> c1 \<or> c2)"
    by blast
  from c have r: "r = None" and c1: "c1 = False" and c2: "c2 = False" by auto
  from 4(1) [OF cs [unfolded c1]] 4(2) [OF ns [unfolded c2]] eq r show ?case by simp
qed

lemma rewrite_Inl:
  "rewrite name key f ns = (Inl e, l)
   \<Longrightarrow> \<exists>v \<in> set (attr_values name key ns). fst (f v) = Inl e"
proof (induction ns arbitrary: l rule: strings.induct)
  case 1
  then show ?case by simp
next
  case (2 s ns)
  from 2(2) obtain l' where "rewrite name key f ns = (Inl e, l')"
    by (auto split: prod.splits sum.splits)
  from 2(1) [OF this] show ?case by simp
next
  case (3 s ns)
  from 3(2) obtain l' where "rewrite name key f ns = (Inl e, l')"
    by (auto split: prod.splits sum.splits)
  from 3(1) [OF this] show ?case by simp
next
  case (4 t as cs ns)
  from 4(3) have "(\<exists>l0. visit name key f t as = (Inl e, l0))
      \<or> (\<exists>l1. rewrite name key f cs = (Inl e, l1))
      \<or> (\<exists>l2. rewrite name key f ns = (Inl e, l2))"
    unfolding rewrite_Element by (auto split: prod.splits sum.splits)
  then consider l0 where "visit name key f t as = (Inl e, l0)"
    | l1 where "rewrite name key f cs = (Inl e, l1)"
    | l2 where "rewrite name key f ns = (Inl e, l2)"
    by blast
  then show ?case
  proof cases
    case 1
    have hit: "t = name \<and> map_of as key \<noteq> None"
    proof (rule ccontr)
      assume "\<not> ?thesis"
      then have "t \<noteq> name \<or> map_of as key = None" by blast
      with 1 show False by (simp add: visit_miss)
    qed
    then obtain v where h: "t = name" "map_of as key = Some v" by auto
    with 1 have "fst (f v) = Inl e" by (simp add: visit_hit)
    with h show ?thesis by (simp add: attr_values_hit)
  next
    case 2
    from 4(1) [OF this] show ?thesis by (auto simp: attr_values_Element)
  next
    case 3
    from 4(2) [OF this] show ?thesis by (auto simp: attr_values_Element)
  qed
qed

lemma rewrite_other_values:
  assumes "name' \<noteq> name"
  shows "rewrite name key f ns = (Inr (ns', c), l)
   \<Longrightarrow> attr_values name' key' ns' = attr_values name' key' ns"
proof (induction ns arbitrary: ns' c l rule: strings.induct)
  case 1
  then show ?case by simp
next
  case (2 s ns)
  from rewrite_Text_Inr [OF 2(2)] 2(1) show ?case by auto
next
  case (3 s ns)
  from rewrite_Comment_Inr [OF 3(2)] 3(1) show ?case by auto
next
  case (4 t as cs ns)
  from rewrite_Element_Inr [OF 4(3)] obtain r l0 cs' c1 l1 ms c2 l2 where
    v: "visit name key f t as = (Inr r, l0)"
    and cs: "rewrite name key f cs = (Inr (cs', c1), l1)"
    and ns: "rewrite name key f ns = (Inr (ms, c2), l2)"
    and eq: "ns' = Element t (case r of None \<Rightarrow> as | Some v' \<Rightarrow> set_attr key v' as) cs' # ms"
    by blast
  note ih = 4(1) [OF cs] 4(2) [OF ns]
  show ?case
  proof (cases "t = name")
    case True
    with assms have "t \<noteq> name'" by simp
    with ih eq show ?thesis by (simp add: attr_values_Element)
  next
    case False
    with v have "r = None" by (simp add: visit_miss)
    with ih eq show ?thesis by (simp add: attr_values_Element)
  qed
qed

lemma attr_values_Element_app:
  "\<exists>h. (\<forall>cs ns. attr_values name key (Element t as cs # ns) =
            h @ attr_values name key cs @ attr_values name key ns)"
  by (intro exI allI) (rule attr_values_Element)

lemma prune_subseq: "subseq (attr_values name key (prune P ns)) (attr_values name key ns)"
proof (induction ns rule: strings.induct)
  case (4 t as cs ns)
  obtain h where h: "\<And>cs ns. attr_values name key (Element t as cs # ns) =
      h @ attr_values name key cs @ attr_values name key ns"
    using attr_values_Element_app by blast
  show ?case
  proof (cases "P (Element t as cs)")
    case True
    from 4(2) have "subseq (attr_values name key (prune P ns))
        (h @ attr_values name key cs @ attr_values name key ns)"
      by (intro list_emb_append2)
    with True show ?thesis by (simp add: h)
  next
    case False
    from 4 have "subseq (h @ attr_values name key (prune P cs) @ attr_values name key (prune P ns))
        (h @ attr_values name key cs @ attr_values name key ns)"
      by (intro list_emb_append_mono subseq_order.order_refl)
    with False show ?thesis by (simp add: h)
  qed
qed simp_all

lemma remove_first_subseq:
  "subseq (attr_values name key (remove_first P ns)) (attr_values name key ns)"
proof (induction ns rule: strings.induct)
  case (4 t as cs ns)
  obtain h where h: "\<And>cs ns. attr_values name key (Element t as cs # ns) =
      h @ attr_values name key cs @ attr_values name key ns"
    using attr_values_Element_app by blast
  consider "P (Element t as cs)"
    | "\<not> P (Element t as cs)" "find_all P cs \<noteq> []"
    | "\<not> P (Element t as cs)" "find_all P cs = []" by blast
  then show ?case
  proof cases
    case 1
    have "subseq (attr_values name key ns)
        (h @ attr_values name key cs @ attr_values name key ns)"
      by (intro list_emb_append2 subseq_order.order_refl)
    with 1 show ?thesis by (simp add: h)
  next
    case 2
    from 4(1) have "subseq (h @ attr_values name key (remove_first P cs) @ attr_values name key ns)
        (h @ attr_values name key cs @ attr_values name key ns)"
      by (intro list_emb_append_mono subseq_order.order_refl)
    with 2 show ?thesis by (simp add: h)
  next
    case 3
    from 4(2) have "subseq (h @ attr_values name key cs @ attr_values name key (remove_first P ns))
        (h @ attr_values name key cs @ attr_values name key ns)"
      by (intro list_emb_append_mono subseq_order.order_refl)
    with 3 show ?thesis by (simp add: h)
  qed
qed simp_all

lemma rename_values:
  "name \<noteq> old \<Longrightarrow> name \<noteq> new \<Longrightarrow>
   attr_values name key (rename old new ns) = attr_values name key ns"
  by (induction ns rule: strings.induct) (simp_all add: attr_values_Element)

lemma structural_edits_tree:
  "fst (fst (structural_edits file_path soup)) =
     prune unwanted_p (rename ''h3'' ''h2'' (fst (remove_topics (prune (has_class ''span'' ''citation'') soup))))"
  by (simp add: structural_edits_def remove_citations_def rename_h3_def remove_unwanted_p_def
        split: prod.splits)

lemma remove_topics_subseq:
  "subseq (attr_values name key (fst (remove_topics ns))) (attr_values name key ns)"
  by (simp add: remove_topics_def remove_first_subseq split: list.splits)

lemma structural_edits_subseq:
  assumes "name \<noteq> ''h3''" and "name \<noteq> ''h2''"
  shows "subseq (attr_values name key (fst (fst (structural_edits file_path soup))))
           (attr_values name key soup)"
proof -
  let ?s1 = "prune (has_class ''span'' ''citation'') soup"
  let ?s2 = "fst (remove_topics ?s1)"
  let ?s3 = "rename ''h3'' ''h2'' ?s2"
  have "subseq (attr_values name key (prune unwanted_p ?s3)) (attr_values name key ?s3)"
    by (rule prune_subseq)
  also have "attr_values name key ?s3 = attr_values name key ?s2"
    using assms by (rule rename_values)
  finally have "subseq (attr_values name key (prune unwanted_p ?s3)) (attr_values name key ?s2)" .
  also have "subseq (attr_values name key ?s2) (attr_values name key ?s1)"
    by (rule remove_topics_subseq)
  also have "subseq (attr_values name key ?s1) (attr_values name key soup)"
    by (rule prune_subseq)
  finally show ?thesis by (simp add: structural_edits_tree)
qed

section \<open>Properties of fix_links_in_html\<close>

lemma find_target_path_None:
  "fst (find_target_path os href index project_root) = Inr None
   \<Longrightarrow> find_target_path os href index project_root = (Inr None, [])"
  by (auto simp: find_target_path_def Let_def split: if_splits sum.splits option.splits list.splits)

lemma a_body_skipped:
  "skipped_href href \<Longrightarrow> a_body os file_path project_root index href = (Inr None, [])"
  by (simp add: a_body_def)

lemma a_body_not_found:
  "\<not> skipped_href href \<Longrightarrow> fst (find_target_path os href index project_root) = Inr None
   \<Longrightarrow> a_body os file_path project_root index href = (Inr None, [TargetNotFound file_path href])"
  by (simp add: a_body_def find_target_path_None)

lemma after_body_None: "f v = (Inr None, l) \<Longrightarrow> after_body f v = v"
  by (simp add: after_body_def)

lemma a_body_Some:
  "fst (a_body os file_path project_root index href) = Inr (Some v') \<Longrightarrow> v' \<noteq> href"
  by (auto simp: a_body_def Let_def split: if_splits prod.splits sum.splits)

lemma img_body_Inr: "\<exists>r l. img_body file_path src = (Inr r, l)"
  by (simp add: img_body_def Let_def)

lemma img_body_Some: "fst (img_body file_path src) = Inr (Some v') \<Longrightarrow> v' \<noteq> src"
  by (auto simp: img_body_def Let_def split: if_splits)


lemma img_pass_Inr: "\<exists>s c l. img_pass file_path soup = (Inr (s, c), l)"
proof (cases "img_pass file_path soup")
  case (Pair r l)
  show ?thesis
  proof (cases r)
    case (Inl e)
    with Pair have "rewrite ''img'' ''src'' (img_body file_path) soup = (Inl e, l)"
      by (simp add: img_pass_def)
    from rewrite_Inl [OF this] obtain v where "fst (img_body file_path v) = Inl e" by blast
    with img_body_Inr [of file_path v] show ?thesis by auto
  next
    case (Inr b)
    with Pair show ?thesis by (cases b) auto
  qed
qed

lemma fix_soup_Inr:
  assumes "fix_soup os file_path project_root index soup = (Inr (soup', c), l)"
  shows "\<exists>s1 c1 l1 s2 c2 l2.
           a_pass os file_path project_root index soup = (Inr (s1, c1), l1)
         \<and> img_pass file_path s1 = (Inr (s2, c2), l2)
         \<and> soup' = (if designated file_path then fst (fst (structural_edits file_path s2)) else s2)
         \<and> c = (c1 \<or> c2 \<or> (designated file_path \<and> snd (fst (structural_edits file_path s2))))
         \<and> l = l1 @ l2 @ (if designated file_path then snd (structural_edits file_path s2) else [])"
  using assms unfolding fix_soup_def
  by (auto split: prod.splits sum.splits if_splits)

lemma fix_soup_Inl:
  assumes "fix_soup os file_path project_root index soup = (Inl e, l)"
  shows "\<exists>l1. a_pass os file_path project_root index soup = (Inl e, l1)"
proof -
  from assms have "(\<exists>l1. a_pass os file_path project_root index soup = (Inl e, l1))
      \<or> (\<exists>s1 l2. img_pass file_path s1 = (Inl e, l2))"
    unfolding fix_soup_def by (auto split: prod.splits sum.splits if_splits)
  moreover have "img_pass file_path s1 \<noteq> (Inl e, l2)" for s1 l2
    using img_pass_Inr [of file_path s1] by auto
  ultimately show ?thesis by blast
qed

lemma fix_soup_hrefs:
  assumes "fix_soup os file_path project_root index soup = (Inr (soup', c), l)"
  shows "subseq (attr_values ''a'' ''href'' soup')
           (map (after_body (a_body os file_path project_root index)) (attr_values ''a'' ''href'' soup))"
    and "\<not> designated file_path \<Longrightarrow>
         attr_values ''a'' ''href'' soup' =
           map (after_body (a_body os file_path project_root index)) (attr_values ''a'' ''href'' soup)"
proof -
  from fix_soup_Inr [OF assms] obtain s1 c1 l1 s2 c2 l2 where
    a: "a_pass os file_path project_root index soup = (Inr (s1, c1), l1)"
    and i: "img_pass file_path s1 = (Inr (s2, c2), l2)"
    and d: "soup' = (if designated file_path then fst (fst (structural_edits file_path s2)) else s2)"
    by blast
  from a have "attr_values ''a'' ''href'' s1 =
      map (after_body (a_body os file_path project_root index)) (attr_values ''a'' ''href'' soup)"
    unfolding a_pass_def by (rule rewrite_values)
  moreover from i have "attr_values ''a'' ''href'' s2 = attr_values ''a'' ''href'' s1"
    unfolding img_pass_def by (rule rewrite_other_values [rotated]) simp
  ultimately have s2: "attr_values ''a'' ''href'' s2 =
      map (after_body (a_body os file_path project_root index)) (attr_values ''a'' ''href'' soup)"
    by simp
  have "subseq (attr_values ''a'' ''href'' (fst (fst (structural_edits file_path s2))))
      (attr_values ''a'' ''href'' s2)"
    by (rule structural_edits_subseq) simp_all
  with d s2 show "subseq (attr_values ''a'' ''href'' soup')
      (map (after_body (a_body os file_path project_root index)) (attr_values ''a'' ''href'' soup))"
    by (auto split: if_splits)
  from d s2 show "\<not> designated file_path \<Longrightarrow>
         attr_values ''a'' ''href'' soup' =
           map (after_body (a_body os file_path project_root index)) (attr_values ''a'' ''href'' soup)"
    by simp
qed


lemma fix_links_Written:
  assumes "fix_links_in_html os file_path project_root index soup = (Inr (Written soup'), l)"
  shows "\<exists>l'. fix_soup os file_path project_root index soup = (Inr (soup', True), l')
           \<and> l = l' @ [UpdatedFile file_path]"
  using assms unfolding fix_links_in_html_def
  by (auto split: prod.splits sum.splits if_splits)

lemma fix_links_Untouched:
  assumes "fix_links_in_html os file_path project_root index soup = (Inr Untouched, l)"
  shows "\<exists>s l'. fix_soup os file_path project_root index soup = (Inr (s, False), l')
           \<and> l = l' @ [NoChanges file_path]"
  using assms unfolding fix_links_in_html_def
  by (auto split: prod.splits sum.splits if_splits)

lemma fix_links_Inl:
  assumes "fix_links_in_html os file_path project_root index soup = (Inl e, l)"
  shows "fix_soup os file_path project_root index soup = (Inl e, l)"
  using assms unfolding fix_links_in_html_def
  by (auto split: prod.splits sum.splits if_splits)

lemma fix_links_ex:
  "fix_links_in_html os_ex ''/r/sub/doc.html'' ''/r'' index_ex doc_ex
     = (Inr (Written doc_ex_fixed), log_ex)"
  by code_simp



text \<open>
  Claim C5. An \<^verbatim>\<open>a\<close> element whose href starts with \<^verbatim>\<open>#\<close>, \<^verbatim>\<open>http://\<close> or \<^verbatim>\<open>https://\<close> keeps its
  href, whatever the index holds. When \<open>fix_links_in_html\<close> writes the file, the hrefs of the
  written tree are those of the parsed tree, in document order, under a function that
  leaves every such href as it is; in the book some elements may be gone with a removed
  citation, heading or paragraph, in every other document none is.
\<close>

theorem skipped_href_verbatim:
  assumes "fix_links_in_html os file_path project_root index soup = (Inr (Written soup'), l)"
  shows "\<exists>g. (\<forall>v. skipped_href v \<longrightarrow> g v = v)
           \<and> subseq (attr_values ''a'' ''href'' soup') (map g (attr_values ''a'' ''href'' soup))
           \<and> (\<not> designated file_path \<longrightarrow>
                attr_values ''a'' ''href'' soup' = map g (attr_values ''a'' ''href'' soup))"
proof -
  from fix_links_Written [OF assms] obtain l' where
    f: "fix_soup os file_path project_root index soup = (Inr (soup', True), l')" by blast
  let ?g = "after_body (a_body os file_path project_root index)"
  have "\<forall>v. skipped_href v \<longrightarrow> ?g v = v"
    by (simp add: a_body_skipped after_body_None)
  with fix_soup_hrefs [OF f] show ?thesis by blast
qed

theorem skipped_href_verbatim_witness:
  "skipped_href ''#top''
   \<and> attr_values ''a'' ''href'' doc_ex = [''b/x.html'', ''#top'', ''missing.html'']
   \<and> (\<exists>g. g ''#top'' = ''#top''
          \<and> attr_values ''a'' ''href'' doc_ex_fixed = map g [''b/x.html'', ''#top'', ''missing.html''])"
proof -
  have sk: "skipped_href ''#top''" by code_simp
  have nd: "\<not> designated ''/r/sub/doc.html''" by code_simp
  have vs: "attr_values ''a'' ''href'' doc_ex = [''b/x.html'', ''#top'', ''missing.html'']"
    by code_simp
  from skipped_href_verbatim [OF fix_links_ex] nd sk vs obtain g where
    "g ''#top'' = ''#top''"
    "attr_values ''a'' ''href'' doc_ex_fixed = map g [''b/x.html'', ''#top'', ''missing.html'']"
    by auto
  with sk vs show ?thesis by blast
qed



text \<open>
  Claim C4. Let an href that is not skipped have no target: \<open>find_target_path\<close> returns
  \<^verbatim>\<open>None\<close> for it. In a document that has this href, the notice is printed, the href is
  the same in the tree that is written, and the link does not stop the run: when
  \<open>fix_links_in_html\<close> ends with an exception, the exception was raised at another link.
\<close>

theorem target_not_found_nonfatal:
  assumes "\<not> skipped_href href"
    and "fst (find_target_path os href index project_root) = Inr None"
    and "href \<in> set (attr_values ''a'' ''href'' soup)"
  shows "case fix_links_in_html os file_path project_root index soup of
           (Inl e, l) \<Rightarrow>
             \<exists>v \<in> set (attr_values ''a'' ''href'' soup).
                v \<noteq> href \<and> fst (a_body os file_path project_root index v) = Inl e
         | (Inr d, l) \<Rightarrow>
             TargetNotFound file_path href \<in> set l
             \<and> (case d of
                  Untouched \<Rightarrow> True
                | Written soup' \<Rightarrow>
                    \<exists>g. g href = href
                      \<and> subseq (attr_values ''a'' ''href'' soup')
                           (map g (attr_values ''a'' ''href'' soup))
                      \<and> (\<not> designated file_path \<longrightarrow>
                           attr_values ''a'' ''href'' soup' =
                             map g (attr_values ''a'' ''href'' soup)))"
proof -
  let ?f = "a_body os file_path project_root index"
  have b: "?f href = (Inr None, [TargetNotFound file_path href])"
    using assms(1,2) by (rule a_body_not_found)
  then have g: "after_body ?f href = href" by (rule after_body_None)
  obtain r l where res: "fix_links_in_html os file_path project_root index soup = (r, l)"
    by (cases "fix_links_in_html os file_path project_root index soup")
  show ?thesis
  proof (cases r)
    case (Inl e)
    with res fix_links_Inl have "fix_soup os file_path project_root index soup = (Inl e, l)"
      by blast
    from fix_soup_Inl [OF this] obtain l1 where
      "rewrite ''a'' ''href'' ?f soup = (Inl e, l1)" unfolding a_pass_def by blast
    from rewrite_Inl [OF this] obtain v where
      v: "v \<in> set (attr_values ''a'' ''href'' soup)" "fst (?f v) = Inl e" by blast
    with b have "v \<noteq> href" by auto
    with v res Inl show ?thesis by auto
  next
    case (Inr d)
    have "\<exists>s c l'. fix_soup os file_path project_root index soup = (Inr (s, c), l')
        \<and> set l' \<subseteq> set l"
    proof (cases d)
      case Untouched
      with res Inr fix_links_Untouched [of os file_path project_root index soup l]
      show ?thesis by auto
    next
      case (Written soup')
      with res Inr fix_links_Written [of os file_path project_root index soup soup' l]
      show ?thesis by auto
    qed
    then obtain s c l' where
      f: "fix_soup os file_path project_root index soup = (Inr (s, c), l')"
      and sub: "set l' \<subseteq> set l" by blast
    from fix_soup_Inr [OF f] obtain s1 c1 l1 l2 where
      a: "rewrite ''a'' ''href'' ?f soup = (Inr (s1, c1), l1)" and l': "l' = l1 @ l2"
      unfolding a_pass_def by blast
    from rewrite_log [OF a] assms(3) b have "TargetNotFound file_path href \<in> set l1"
      by force
    with l' sub have logged: "TargetNotFound file_path href \<in> set l" by auto
    show ?thesis
    proof (cases d)
      case Untouched
      with res Inr logged show ?thesis by simp
    next
      case (Written soup')
      with res Inr fix_links_Written obtain l'' where
        "fix_soup os file_path project_root index soup = (Inr (soup', True), l'')" by blast
      from fix_soup_hrefs [OF this] g
      have "\<exists>g. g href = href
          \<and> subseq (attr_values ''a'' ''href'' soup') (map g (attr_values ''a'' ''href'' soup))
          \<and> (\<not> designated file_path \<longrightarrow>
               attr_values ''a'' ''href'' soup' = map g (attr_values ''a'' ''href'' soup))"
        by blast
      with res Inr Written logged show ?thesis by simp
    qed
  qed
qed

theorem target_not_found_nonfatal_witness:
  "find_target_path os_ex ''missing.html'' index_ex ''/r'' = (Inr None, [])
   \<and> TargetNotFound ''/r/sub/doc.html'' ''missing.html'' \<in> set log_ex
   \<and> (\<exists>g. g ''missing.html'' = ''missing.html''
          \<and> attr_values ''a'' ''href'' doc_ex_fixed = map g (attr_values ''a'' ''href'' doc_ex))"
proof -
  have h1: "\<not> skipped_href ''missing.html''" by code_simp
  have f: "find_target_path os_ex ''missing.html'' index_ex ''/r'' = (Inr None, [])" by code_simp
  then have h2: "fst (find_target_path os_ex ''missing.html'' index_ex ''/r'') = Inr None" by simp
  have h3: "''missing.html'' \<in> set (attr_values ''a'' ''href'' doc_ex)" by code_simp
  have nd: "\<not> designated ''/r/sub/doc.html''" by code_simp
  from target_not_found_nonfatal [OF h1 h2 h3, of "''/r/sub/doc.html''"] nd
  have "TargetNotFound ''/r/sub/doc.html'' ''missing.html'' \<in> set log_ex
      \<and> (\<exists>g. g ''missing.html'' = ''missing.html''
             \<and> attr_values ''a'' ''href'' doc_ex_fixed = map g (attr_values ''a'' ''href'' doc_ex))"
    by (simp add: fix_links_ex) blast
  with f show ?thesis by blast
qed

section \<open>When the file is written\<close>

lemma rewrite_count:
  assumes "\<And>t as cs as' cs'. Q (Element t as cs) = Q (Element t as' cs')"
  shows "rewrite name key f ns = (Inr (ns', c), l)
   \<Longrightarrow> length (find_all Q ns') = length (find_all Q ns)"
proof (induction ns arbitrary: ns' c l rule: strings.induct)
  case 1
  then show ?case by simp
next
  case (2 s ns)
  from rewrite_Text_Inr [OF 2(2)] 2(1) show ?case by auto
next
  case (3 s ns)
  from rewrite_Comment_Inr [OF 3(2)] 3(1) show ?case by auto
next
  case (4 t as cs ns)
  from rewrite_Element_Inr [OF 4(3)] obtain r cs' c1 l1 ms c2 l2 where
    cs: "rewrite name key f cs = (Inr (cs', c1), l1)"
    and ns: "rewrite name key f ns = (Inr (ms, c2), l2)"
    and eq: "ns' = Element t (case r of None \<Rightarrow> as | Some v' \<Rightarrow> set_attr key v' as) cs' # ms"
    by blast
  have "Q (Element t (case r of None \<Rightarrow> as | Some v' \<Rightarrow> set_attr key v' as) cs') = Q (Element t as cs)"
    by (rule assms)
  with 4(1) [OF cs] 4(2) [OF ns] eq show ?case by simp
qed

lemma pruned_empty: "(pruned P ns = []) = (find_all P ns = [])"
  by (induction ns rule: strings.induct) simp_all

lemma prune_id: "find_all P ns = [] \<Longrightarrow> prune P ns = ns"
  by (induction ns rule: strings.induct) (simp_all split: if_splits)

lemma prune_count_le:
  "length (find_all (\<lambda>n. True) (prune P ns)) \<le> length (find_all (\<lambda>n. True) ns)"
  by (induction ns rule: strings.induct) simp_all

lemma prune_count_less:
  "find_all P ns \<noteq> [] \<Longrightarrow>
   length (find_all (\<lambda>n. True) (prune P ns)) < length (find_all (\<lambda>n. True) ns)"
proof (induction ns rule: strings.induct)
  case (4 t as cs ns)
  show ?case
  proof (cases "P (Element t as cs)")
    case True
    with prune_count_le [of P ns] show ?thesis by simp
  next
    case False
    with 4(3) have "find_all P cs \<noteq> [] \<or> find_all P ns \<noteq> []" by simp
    then show ?thesis
    proof
      assume "find_all P cs \<noteq> []"
      from 4(1) [OF this] prune_count_le [of P ns] False show ?thesis by simp
    next
      assume "find_all P ns \<noteq> []"
      from 4(2) [OF this] prune_count_le [of P cs] False show ?thesis by simp
    qed
  qed
qed simp_all

lemma remove_first_count_less:
  "find_all P ns \<noteq> [] \<Longrightarrow>
   length (find_all (\<lambda>n. True) (remove_first P ns)) < length (find_all (\<lambda>n. True) ns)"
proof (induction ns rule: strings.induct)
  case (4 t as cs ns)
  consider "P (Element t as cs)"
    | "\<not> P (Element t as cs)" "find_all P cs \<noteq> []"
    | "\<not> P (Element t as cs)" "find_all P cs = []" by blast
  then show ?case
  proof cases
    case 1
    then show ?thesis by simp
  next
    case 2
    from 4(1) [OF 2(2)] 2 show ?thesis by simp
  next
    case 3
    with 4(3) have "find_all P ns \<noteq> []" by simp
    from 4(2) [OF this] 3 show ?thesis by simp
  qed
qed simp_all

lemma rename_count:
  "length (find_all (\<lambda>n. True) (rename old new ns)) = length (find_all (\<lambda>n. True) ns)"
  by (induction ns rule: strings.induct) simp_all

lemma rename_none_left:
  "old \<noteq> new \<Longrightarrow> find_all (has_name old) (rename old new ns) = []"
  by (induction ns rule: strings.induct) (simp_all add: has_name_def)

lemma rename_id: "find_all (has_name old) ns = [] \<Longrightarrow> rename old new ns = ns"
  by (induction ns rule: strings.induct) (simp_all add: has_name_def split: if_splits)

lemma map_changed:
  "\<exists>v \<in> set xs. f v \<noteq> v \<Longrightarrow> map f xs \<noteq> xs"
  by (induction xs) auto

lemma remove_topics_cases:
  "(snd (remove_topics s) \<and>
      length (find_all (\<lambda>n. True) (fst (remove_topics s))) < length (find_all (\<lambda>n. True) s))
   \<or> (\<not> snd (remove_topics s) \<and> fst (remove_topics s) = s)"
proof (cases "find_all (attr_is ''h2'' ''id'' ''topics'') s")
  case Nil
  then show ?thesis by (simp add: remove_topics_def)
next
  case (Cons h hs)
  then have "find_all (attr_is ''h2'' ''id'' ''topics'') s \<noteq> []" by simp
  from remove_first_count_less [OF this] Cons show ?thesis
    by (simp add: remove_topics_def)
qed

lemma structural_edits_flag:
  "snd (fst (structural_edits file_path s)) =
     (find_all (has_class ''span'' ''citation'') s \<noteq> []
      \<or> snd (remove_topics (prune (has_class ''span'' ''citation'') s))
      \<or> find_all (has_name ''h3'') (fst (remove_topics (prune (has_class ''span'' ''citation'') s))) \<noteq> []
      \<or> find_all unwanted_p
           (rename ''h3'' ''h2'' (fst (remove_topics (prune (has_class ''span'' ''citation'') s)))) \<noteq> [])"
  by (simp add: structural_edits_def remove_citations_def rename_h3_def remove_unwanted_p_def
        pruned_empty split: prod.splits)

lemma structural_edits_cases:
  "(snd (fst (structural_edits file_path s))
      \<and> (length (find_all (\<lambda>n. True) (fst (fst (structural_edits file_path s))))
            < length (find_all (\<lambda>n. True) s)
          \<or> (find_all (has_name ''h3'') (fst (fst (structural_edits file_path s))) = []
              \<and> find_all (has_name ''h3'') s \<noteq> [])))
   \<or> (\<not> snd (fst (structural_edits file_path s)) \<and> fst (fst (structural_edits file_path s)) = s)"
proof -
  let ?cit = "has_class ''span'' ''citation''"
  let ?s1 = "prune ?cit s"
  let ?s2 = "fst (remove_topics ?s1)"
  let ?s3 = "rename ''h3'' ''h2'' ?s2"
  let ?s4 = "prune unwanted_p ?s3"
  let ?n = "\<lambda>x. length (find_all (\<lambda>n. True) x)"
  have t: "fst (fst (structural_edits file_path s)) = ?s4" by (rule structural_edits_tree)
  note f = structural_edits_flag [of file_path s]
  have le1: "?n ?s1 \<le> ?n s" by (rule prune_count_le)
  have le2: "?n ?s2 \<le> ?n ?s1" using remove_topics_cases [of ?s1] by auto
  have e3: "?n ?s3 = ?n ?s2" by (rule rename_count)
  have le4: "?n ?s4 \<le> ?n ?s3" by (rule prune_count_le)
  consider (cit) "find_all ?cit s \<noteq> []"
    | (top) "snd (remove_topics ?s1)"
    | (par) "find_all unwanted_p ?s3 \<noteq> []"
    | (h3) "find_all ?cit s = []" "\<not> snd (remove_topics ?s1)" "find_all unwanted_p ?s3 = []"
        "find_all (has_name ''h3'') ?s2 \<noteq> []"
    | (none) "find_all ?cit s = []" "\<not> snd (remove_topics ?s1)" "find_all unwanted_p ?s3 = []"
        "find_all (has_name ''h3'') ?s2 = []"
    by blast
  then show ?thesis
  proof cases
    case cit
    from prune_count_less [OF this] le2 e3 le4 have "?n ?s4 < ?n s" by linarith
    with cit f t show ?thesis by simp
  next
    case top
    with remove_topics_cases [of ?s1] have "?n ?s2 < ?n ?s1" by blast
    with le1 e3 le4 have "?n ?s4 < ?n s" by linarith
    with top f t show ?thesis by simp
  next
    case par
    from prune_count_less [OF this] le1 le2 e3 have "?n ?s4 < ?n s" by linarith
    with par f t show ?thesis by simp
  next
    case h3
    from h3(1) have s1: "?s1 = s" by (rule prune_id)
    from h3(2) remove_topics_cases [of ?s1] have "?s2 = ?s1" by blast
    with s1 have s2: "?s2 = s" by simp
    from h3(3) have "?s4 = ?s3" by (rule prune_id)
    moreover have "find_all (has_name ''h3'') ?s3 = []" by (rule rename_none_left) simp
    ultimately have "find_all (has_name ''h3'') ?s4 = []" by simp
    moreover from h3(4) s2 have "find_all (has_name ''h3'') s \<noteq> []" by simp
    ultimately show ?thesis using h3(4) f t by simp
  next
    case none
    from none(1) have s1: "?s1 = s" by (rule prune_id)
    from none(2) remove_topics_cases [of ?s1] have "?s2 = ?s1" by blast
    with s1 have s2: "?s2 = s" by simp
    from none(4) have "?s3 = ?s2" by (rule rename_id)
    moreover from none(3) have "?s4 = ?s3" by (rule prune_id)
    ultimately have "?s4 = s" using s2 by simp
    with none f t show ?thesis by simp
  qed
qed

lemma rewrite_changed_values:
  assumes "rewrite name key f ns = (Inr (ns', True), l)"
    and "\<And>v v'. fst (f v) = Inr (Some v') \<Longrightarrow> v' \<noteq> v"
  shows "attr_values name key ns' \<noteq> attr_values name key ns"
proof -
  from rewrite_changed [OF assms(1)] obtain v v' where
    v: "v \<in> set (attr_values name key ns)" "fst (f v) = Inr (Some v')" by blast
  with assms(2) have "after_body f v \<noteq> v" by (simp add: after_body_def)
  with v(1) have "map (after_body f) (attr_values name key ns) \<noteq> attr_values name key ns"
    by (intro map_changed) blast
  with rewrite_values [OF assms(1)] show ?thesis by simp
qed

lemma attribute_passes_changed:
  assumes a: "a_pass os file_path project_root index soup = (Inr (s1, c1), l1)"
    and i: "img_pass file_path s1 = (Inr (s2, c2), l2)"
  shows "(c1 \<or> c2) = (s2 \<noteq> soup)"
proof -
  have h1: "attr_values ''a'' ''href'' s2 = attr_values ''a'' ''href'' s1"
    using i unfolding img_pass_def by (rule rewrite_other_values [rotated]) simp
  have h2: "attr_values ''img'' ''src'' s1 = attr_values ''img'' ''src'' soup"
    using a unfolding a_pass_def by (rule rewrite_other_values [rotated]) simp
  show ?thesis
  proof (cases c1)
    case True
    with a have "attr_values ''a'' ''href'' s1 \<noteq> attr_values ''a'' ''href'' soup"
      unfolding a_pass_def by (intro rewrite_changed_values [where l = l1] a_body_Some) auto
    with h1 have "s2 \<noteq> soup" by auto
    with True show ?thesis by simp
  next
    case False
    with a have s1: "s1 = soup" unfolding a_pass_def by (auto dest: rewrite_unchanged)
    show ?thesis
    proof (cases c2)
      case True
      with i have "attr_values ''img'' ''src'' s2 \<noteq> attr_values ''img'' ''src'' s1"
        unfolding img_pass_def by (intro rewrite_changed_values [where l = l2] img_body_Some) auto
      with h2 have "s2 \<noteq> soup" by auto
      with True show ?thesis by simp
    next
      case c2: False
      with i have "s2 = s1" unfolding img_pass_def by (auto dest: rewrite_unchanged)
      with s1 False c2 show ?thesis by simp
    qed
  qed
qed

lemma attribute_passes_count:
  assumes a: "a_pass os file_path project_root index soup = (Inr (s1, c1), l1)"
    and i: "img_pass file_path s1 = (Inr (s2, c2), l2)"
    and q: "\<And>t as cs as' cs'. Q (Element t as cs) = Q (Element t as' cs')"
  shows "length (find_all Q s2) = length (find_all Q soup)"
proof -
  from a have "length (find_all Q s1) = length (find_all Q soup)"
    unfolding a_pass_def by (rule rewrite_count [rotated]) (rule q)
  moreover from i have "length (find_all Q s2) = length (find_all Q s1)"
    unfolding img_pass_def by (rule rewrite_count [rotated]) (rule q)
  ultimately show ?thesis by simp
qed

lemma fix_soup_changed:
  assumes "fix_soup os file_path project_root index soup = (Inr (soup', c), l)"
  shows "c = (soup' \<noteq> soup)"
proof -
  from fix_soup_Inr [OF assms] obtain s1 c1 l1 s2 c2 l2 where
    a: "a_pass os file_path project_root index soup = (Inr (s1, c1), l1)"
    and i: "img_pass file_path s1 = (Inr (s2, c2), l2)"
    and t: "soup' = (if designated file_path then fst (fst (structural_edits file_path s2)) else s2)"
    and c: "c = (c1 \<or> c2 \<or> (designated file_path \<and> snd (fst (structural_edits file_path s2))))"
    by blast
  note p = attribute_passes_changed [OF a i]
  show ?thesis
  proof (cases "designated file_path")
    case False
    with t c p show ?thesis by simp
  next
    case True
    let ?n = "\<lambda>x. length (find_all (\<lambda>n. True) x)"
    have n: "?n s2 = ?n soup" by (rule attribute_passes_count [OF a i]) simp
    have h: "length (find_all (has_name ''h3'') s2) = length (find_all (has_name ''h3'') soup)"
      by (rule attribute_passes_count [OF a i]) (simp add: has_name_def)
    from structural_edits_cases [of file_path s2] show ?thesis
    proof
      assume e: "snd (fst (structural_edits file_path s2))
        \<and> (?n (fst (fst (structural_edits file_path s2))) < ?n s2
            \<or> (find_all (has_name ''h3'') (fst (fst (structural_edits file_path s2))) = []
                \<and> find_all (has_name ''h3'') s2 \<noteq> []))"
      with True t have "?n soup' < ?n s2
          \<or> (find_all (has_name ''h3'') soup' = [] \<and> find_all (has_name ''h3'') s2 \<noteq> [])"
        by simp
      then have "soup' \<noteq> soup"
      proof
        assume "?n soup' < ?n s2"
        with n show ?thesis by auto
      next
        assume "find_all (has_name ''h3'') soup' = [] \<and> find_all (has_name ''h3'') s2 \<noteq> []"
        with h show ?thesis by auto
      qed
      with e True c show ?thesis by simp
    next
      assume "\<not> snd (fst (structural_edits file_path s2))
        \<and> fst (fst (structural_edits file_path s2)) = s2"
      with True t c p show ?thesis by simp
    qed
  qed
qed

lemma fix_soup_flag:
  assumes "fix_soup os file_path project_root index soup = (Inr (soup', c), l)"
  shows "c =
    ((\<exists>v \<in> set (attr_values ''a'' ''href'' soup).
        \<exists>v'. fst (a_body os file_path project_root index v) = Inr (Some v') \<and> v' \<noteq> v)
     \<or> (\<exists>v \<in> set (attr_values ''img'' ''src'' soup).
        \<exists>v'. fst (img_body file_path v) = Inr (Some v') \<and> v' \<noteq> v)
     \<or> (designated file_path \<and> snd (fst (structural_edits file_path soup))))"
proof -
  from fix_soup_Inr [OF assms] obtain s1 c1 l1 s2 c2 l2 where
    a: "a_pass os file_path project_root index soup = (Inr (s1, c1), l1)"
    and i: "img_pass file_path s1 = (Inr (s2, c2), l2)"
    and c: "c = (c1 \<or> c2 \<or> (designated file_path \<and> snd (fst (structural_edits file_path s2))))"
    by blast
  from a have "c1 = (\<exists>v \<in> set (attr_values ''a'' ''href'' soup).
      \<exists>v'. fst (a_body os file_path project_root index v) = Inr (Some v'))"
    unfolding a_pass_def by (rule rewrite_changed)
  then have c1: "c1 = (\<exists>v \<in> set (attr_values ''a'' ''href'' soup).
      \<exists>v'. fst (a_body os file_path project_root index v) = Inr (Some v') \<and> v' \<noteq> v)"
    using a_body_Some by blast
  have "attr_values ''img'' ''src'' s1 = attr_values ''img'' ''src'' soup"
    using a unfolding a_pass_def by (rule rewrite_other_values [rotated]) simp
  moreover from i have "c2 = (\<exists>v \<in> set (attr_values ''img'' ''src'' s1).
      \<exists>v'. fst (img_body file_path v) = Inr (Some v'))"
    unfolding img_pass_def by (rule rewrite_changed)
  ultimately have "c2 = (\<exists>v \<in> set (attr_values ''img'' ''src'' soup).
      \<exists>v'. fst (img_body file_path v) = Inr (Some v'))" by simp
  then have c2: "c2 = (\<exists>v \<in> set (attr_values ''img'' ''src'' soup).
      \<exists>v'. fst (img_body file_path v) = Inr (Some v') \<and> v' \<noteq> v)"
    using img_body_Some by blast
  show ?thesis
  proof (cases "c1 \<or> c2")
    case True
    with c c1 c2 show ?thesis by blast
  next
    case False
    with attribute_passes_changed [OF a i] have "s2 = soup" by simp
    with False c c1 c2 show ?thesis by simp
  qed
qed

text \<open>
  Claim C7. The file is written if and only if the loops changed something. The tree that
  \<open>fix_links_in_html\<close> holds at its end differs from the parsed tree exactly when
  \<^verbatim>\<open>changed\<close> is true; the file is written with that tree in this case and left untouched
  otherwise. This is the case exactly when the body of the first loop assigns a new href
  to some \<^verbatim>\<open>a\<close>, or the body of the second a new src to some \<^verbatim>\<open>img\<close>, or, in the book, one
  of the four edits finds an element on the parsed tree.
\<close>

theorem written_iff_changed:
  assumes "fix_links_in_html os file_path project_root index soup = (Inr d, l)"
  shows "\<exists>soup' l'.
           fix_soup os file_path project_root index soup = (Inr (soup', soup' \<noteq> soup), l')
         \<and> d = (if soup' \<noteq> soup then Written soup' else Untouched)
         \<and> l = l' @ [if soup' \<noteq> soup then UpdatedFile file_path else NoChanges file_path]
         \<and> (soup' \<noteq> soup) =
             ((\<exists>v \<in> set (attr_values ''a'' ''href'' soup).
                 \<exists>v'. fst (a_body os file_path project_root index v) = Inr (Some v') \<and> v' \<noteq> v)
              \<or> (\<exists>v \<in> set (attr_values ''img'' ''src'' soup).
                 \<exists>v'. fst (img_body file_path v) = Inr (Some v') \<and> v' \<noteq> v)
              \<or> (designated file_path \<and> snd (fst (structural_edits file_path soup))))"
proof (cases d)
  case Untouched
  with assms fix_links_Untouched obtain s l' where
    f: "fix_soup os file_path project_root index soup = (Inr (s, False), l')"
    and l: "l = l' @ [NoChanges file_path]" by blast
  from fix_soup_changed [OF f] have s: "s = soup" by simp
  from fix_soup_flag [OF f] f l s Untouched show ?thesis by auto
next
  case (Written soup')
  with assms fix_links_Written obtain l' where
    f: "fix_soup os file_path project_root index soup = (Inr (soup', True), l')"
    and l: "l = l' @ [UpdatedFile file_path]" by blast
  from fix_soup_changed [OF f] have s: "soup' \<noteq> soup" by simp
  from fix_soup_flag [OF f] have "True =
     ((\<exists>v \<in> set (attr_values ''a'' ''href'' soup).
         \<exists>v'. fst (a_body os file_path project_root index v) = Inr (Some v') \<and> v' \<noteq> v)
      \<or> (\<exists>v \<in> set (attr_values ''img'' ''src'' soup).
         \<exists>v'. fst (img_body file_path v) = Inr (Some v') \<and> v' \<noteq> v)
      \<or> (designated file_path \<and> snd (fst (structural_edits file_path soup))))" .
  with f l s Written show ?thesis by (intro exI [of _ soup'] exI [of _ l']) simp
qed

theorem written_iff_changed_witness:
  "doc_ex_fixed \<noteq> doc_ex
   \<and> (\<exists>l'. fix_soup os_ex ''/r/sub/doc.html'' ''/r'' index_ex doc_ex = (Inr (doc_ex_fixed, True), l')
          \<and> log_ex = l' @ [UpdatedFile ''/r/sub/doc.html''])"
proof -
  from written_iff_changed [OF fix_links_ex] obtain soup' l' where
    f: "fix_soup os_ex ''/r/sub/doc.html'' ''/r'' index_ex doc_ex = (Inr (soup', soup' \<noteq> doc_ex), l')"
    and d: "Written doc_ex_fixed = (if soup' \<noteq> doc_ex then Written soup' else Untouched)"
    and l: "log_ex = l' @ [if soup' \<noteq> doc_ex then UpdatedFile ''/r/sub/doc.html''
                          else NoChanges ''/r/sub/doc.html'']"
    by blast
  from d have ne: "soup' \<noteq> doc_ex" by (auto split: if_splits)
  with d have "soup' = doc_ex_fixed" by simp
  with f l ne show ?thesis by auto
qed

section \<open>The paragraphs of the book\<close>

lemma find_all_imp_empty:
  "(\<And>n. P n \<Longrightarrow> Q n) \<Longrightarrow> find_all Q ns = [] \<Longrightarrow> find_all P ns = []"
  by (induction ns rule: strings.induct) (auto split: if_splits)

lemma prune_flat:
  assumes pq: "\<And>n. P n \<Longrightarrow> has_name x n"
  shows "list_all (\<lambda>n. find_all (has_name x) (contents n) = []) (find_all (has_name x) ns)
   \<Longrightarrow> find_all (has_name x) (prune P ns) = filter (\<lambda>n. \<not> P n) (find_all (has_name x) ns)
       \<and> pruned P ns = filter P (find_all (has_name x) ns)"
proof (induction ns rule: strings.induct)
  case (4 t as cs ns)
  from 4(3) have fc: "list_all (\<lambda>n. find_all (has_name x) (contents n) = []) (find_all (has_name x) cs)"
    and fn: "list_all (\<lambda>n. find_all (has_name x) (contents n) = []) (find_all (has_name x) ns)"
    by (simp_all split: if_splits)
  note ihc = 4(1) [OF fc] and ihn = 4(2) [OF fn]
  show ?case
  proof (cases "has_name x (Element t as cs)")
    case True
    with 4(3) have e: "find_all (has_name x) cs = []" by (simp add: contents_def)
    from find_all_imp_empty [of P "has_name x", OF pq e] have pe: "find_all P cs = []" .
    then have id: "prune P cs = cs" by (rule prune_id)
    from pe have pr: "pruned P cs = []" by (simp add: pruned_empty)
    from True e id pr ihn show ?thesis by simp
  next
    case False
    with pq have np: "\<not> P (Element t as cs)" by blast
    from False have "\<not> has_name x (Element t as (prune P cs))" by (simp add: has_name_def)
    with False np ihc ihn show ?thesis by simp
  qed
qed simp_all

lemma rewrite_strings:
  "rewrite name key f ns = (Inr (ns', c), l) \<Longrightarrow> strings ns' = strings ns"
proof (induction ns arbitrary: ns' c l rule: strings.induct)
  case 1
  then show ?case by simp
next
  case (2 s ns)
  from rewrite_Text_Inr [OF 2(2)] 2(1) show ?case by auto
next
  case (3 s ns)
  from rewrite_Comment_Inr [OF 3(2)] 3(1) show ?case by auto
next
  case (4 t as cs ns)
  from rewrite_Element_Inr [OF 4(3)] obtain r cs' c1 l1 ms c2 l2 where
    cs: "rewrite name key f cs = (Inr (cs', c1), l1)"
    and ns: "rewrite name key f ns = (Inr (ms, c2), l2)"
    and eq: "ns' = Element t (case r of None \<Rightarrow> as | Some v' \<Rightarrow> set_attr key v' as) cs' # ms"
    by blast
  from 4(1) [OF cs] 4(2) [OF ns] eq show ?case by simp
qed

lemma rewrite_texts:
  "rewrite name key f ns = (Inr (ns', c), l)
   \<Longrightarrow> map (\<lambda>n. strings [n]) (find_all (has_name x) ns')
       = map (\<lambda>n. strings [n]) (find_all (has_name x) ns)"
proof (induction ns arbitrary: ns' c l rule: strings.induct)
  case 1
  then show ?case by simp
next
  case (2 s ns)
  from rewrite_Text_Inr [OF 2(2)] 2(1) show ?case by auto
next
  case (3 s ns)
  from rewrite_Comment_Inr [OF 3(2)] 3(1) show ?case by auto
next
  case (4 t as cs ns)
  from rewrite_Element_Inr [OF 4(3)] obtain r cs' c1 l1 ms c2 l2 where
    cs: "rewrite name key f cs = (Inr (cs', c1), l1)"
    and ns: "rewrite name key f ns = (Inr (ms, c2), l2)"
    and eq: "ns' = Element t (case r of None \<Rightarrow> as | Some v' \<Rightarrow> set_attr key v' as) cs' # ms"
    by blast
  from rewrite_strings [OF cs] 4(1) [OF cs] 4(2) [OF ns] eq show ?case
    by (simp add: has_name_def)
qed

lemma normalized_strings:
  "normalized n = concat (split_ws (concat (filter (\<lambda>s. s \<noteq> []) (map strip (strings [n])))))"
  by (simp add: normalized_def get_text_strip_def)

lemma rewrite_normalized:
  assumes "rewrite name key f ns = (Inr (ns', c), l)"
  shows "map normalized (find_all (has_name x) ns') = map normalized (find_all (has_name x) ns)"
proof -
  let ?g = "\<lambda>ss. concat (split_ws (concat (filter (\<lambda>s. s \<noteq> []) (map strip ss))))"
  from rewrite_texts [OF assms, of x]
  have "map ?g (map (\<lambda>n. strings [n]) (find_all (has_name x) ns'))
      = map ?g (map (\<lambda>n. strings [n]) (find_all (has_name x) ns))"
    by (rule arg_cong)
  then show ?thesis
    unfolding map_map comp_def normalized_strings [symmetric] .
qed

lemma find_all_sat: "n \<in> set (find_all P ns) \<Longrightarrow> P n"
  by (induction ns rule: strings.induct) (auto split: if_splits)

lemma unwanted_p_filter:
  "filter unwanted_p (find_all (has_name ''p'') ns) =
     filter (\<lambda>n. normalized n \<in> {''{}'', ''(scope:global){(disabled)(disabled)(disabled)}''})
       (find_all (has_name ''p'') ns)"
  by (rule filter_cong) (auto simp: unwanted_p_def unwanted_texts_def dest: find_all_sat)

lemma not_unwanted_p_filter:
  "filter (\<lambda>n. \<not> unwanted_p n) (find_all (has_name ''p'') ns) =
     filter (\<lambda>n. normalized n \<notin> {''{}'', ''(scope:global){(disabled)(disabled)(disabled)}''})
       (find_all (has_name ''p'') ns)"
  by (rule filter_cong) (auto simp: unwanted_p_def unwanted_texts_def dest: find_all_sat)

lemma structural_edits_log:
  "snd (structural_edits file_path s) =
     map (\<lambda>p. RemoveP file_path (get_text_strip p))
       (pruned unwanted_p (rename ''h3'' ''h2'' (fst (remove_topics (fst (remove_citations s))))))"
  by (simp add: structural_edits_def remove_citations_def rename_h3_def remove_unwanted_p_def
        split: prod.splits)

text \<open>
  Claim C9 says that, in the book, a paragraph is removed exactly when its text without
  whitespace is one of the two strings, and that every other paragraph is kept. The
  paragraphs are tested after the citation spans have been removed, and a paragraph goes
  with everything inside it. So the paragraph \<^verbatim>\<open><p>{<span class="citation">1</span>}</p>\<close>,
  whose text is \<^verbatim>\<open>{1}\<close>, is removed; and in \<^verbatim>\<open><p>{<p> </p>}</p>\<close>, which the parser
  \<^verbatim>\<open>html.parser\<close> builds as one paragraph inside another, the inner paragraph, whose text
  is empty, is removed with the outer one.
\<close>

theorem other_paragraph_removed:
  "normalized (Element ''p'' []
       [Text ''{'', Element ''span'' [(''class'', ''citation'')] [Text ''1''], Text ''}'']) = ''{1}''
   \<and> ''{1}'' \<notin> set unwanted_texts
   \<and> fix_links_in_html os_ex ''/r/The-Swift-Programming-Language.html'' ''/r'' index_ex
       [Element ''p'' []
          [Text ''{'', Element ''span'' [(''class'', ''citation'')] [Text ''1''], Text ''}'']]
       = (Inr (Written []),
          [RemoveP ''/r/The-Swift-Programming-Language.html'' ''{}'',
           UpdatedFile ''/r/The-Swift-Programming-Language.html''])
   \<and> normalized (Element ''p'' [] [Text '' '']) = ''''
   \<and> '''' \<notin> set unwanted_texts
   \<and> fix_links_in_html os_ex ''/r/The-Swift-Programming-Language.html'' ''/r'' index_ex
       [Element ''p'' [] [Text ''{'', Element ''p'' [] [Text '' ''], Text ''}'']]
       = (Inr (Written []),
          [RemoveP ''/r/The-Swift-Programming-Language.html'' ''{}'',
           UpdatedFile ''/r/The-Swift-Programming-Language.html''])"
  by code_simp

text \<open>
  Claim C9, amended. In the book, let \<open>s3\<close> be the tree after the two loops over the
  attributes, the removal of the citation spans and of the Topics heading and the renaming
  of \<^verbatim>\<open>h3\<close>. If no paragraph of \<open>s3\<close> lies inside another paragraph, the paragraphs of the
  result are the paragraphs of \<open>s3\<close> whose text without whitespace is neither of the two
  strings, unchanged and in document order, and one notice is printed for each of the
  other paragraphs of \<open>s3\<close>, in document order. In any other document the paragraphs of
  the result have the texts of the paragraphs of the parsed tree, one for one.
\<close>

theorem unwanted_paragraphs_removed:
  assumes "fix_soup os file_path project_root index soup = (Inr (soup', c), l)"
  shows "\<exists>s1 c1 l1 s2 c2 l2.
           a_pass os file_path project_root index soup = (Inr (s1, c1), l1)
         \<and> img_pass file_path s1 = (Inr (s2, c2), l2)
         \<and> (if designated file_path
            then (let s3 = rename ''h3'' ''h2'' (fst (remove_topics (fst (remove_citations s2))))
                  in list_all (\<lambda>n. find_all (has_name ''p'') (contents n) = [])
                       (find_all (has_name ''p'') s3)
                     \<longrightarrow> find_all (has_name ''p'') soup' =
                           filter (\<lambda>n. normalized n \<notin>
                               {''{}'', ''(scope:global){(disabled)(disabled)(disabled)}''})
                             (find_all (has_name ''p'') s3)
                         \<and> l = l1 @ l2 @ map (\<lambda>p. RemoveP file_path (get_text_strip p))
                             (filter (\<lambda>n. normalized n \<in>
                                 {''{}'', ''(scope:global){(disabled)(disabled)(disabled)}''})
                               (find_all (has_name ''p'') s3)))
            else map normalized (find_all (has_name ''p'') soup')
                   = map normalized (find_all (has_name ''p'') soup)
                 \<and> l = l1 @ l2)"
proof -
  from fix_soup_Inr [OF assms] obtain s1 c1 l1 s2 c2 l2 where
    a: "a_pass os file_path project_root index soup = (Inr (s1, c1), l1)"
    and i: "img_pass file_path s1 = (Inr (s2, c2), l2)"
    and t: "soup' = (if designated file_path then fst (fst (structural_edits file_path s2)) else s2)"
    and l: "l = l1 @ l2 @ (if designated file_path then snd (structural_edits file_path s2) else [])"
    by blast
  let ?s3 = "rename ''h3'' ''h2'' (fst (remove_topics (fst (remove_citations s2))))"
  have rest: "if designated file_path
      then (list_all (\<lambda>n. find_all (has_name ''p'') (contents n) = [])
                       (find_all (has_name ''p'') ?s3)
                     \<longrightarrow> find_all (has_name ''p'') soup' =
                           filter (\<lambda>n. normalized n \<notin>
                               {''{}'', ''(scope:global){(disabled)(disabled)(disabled)}''})
                             (find_all (has_name ''p'') ?s3)
                         \<and> l = l1 @ l2 @ map (\<lambda>p. RemoveP file_path (get_text_strip p))
                             (filter (\<lambda>n. normalized n \<in>
                                 {''{}'', ''(scope:global){(disabled)(disabled)(disabled)}''})
                               (find_all (has_name ''p'') ?s3)))
      else map normalized (find_all (has_name ''p'') soup')
             = map normalized (find_all (has_name ''p'') soup)
           \<and> l = l1 @ l2"
  proof (cases "designated file_path")
    case True
    have s': "soup' = prune unwanted_p ?s3"
      using True t by (simp add: structural_edits_tree remove_citations_def)
    have l': "l = l1 @ l2 @ map (\<lambda>p. RemoveP file_path (get_text_strip p)) (pruned unwanted_p ?s3)"
      using True l by (simp add: structural_edits_log)
    have "find_all (has_name ''p'') soup' =
            filter (\<lambda>n. normalized n \<notin>
                {''{}'', ''(scope:global){(disabled)(disabled)(disabled)}''})
              (find_all (has_name ''p'') ?s3)
          \<and> l = l1 @ l2 @ map (\<lambda>p. RemoveP file_path (get_text_strip p))
              (filter (\<lambda>n. normalized n \<in>
                  {''{}'', ''(scope:global){(disabled)(disabled)(disabled)}''})
                (find_all (has_name ''p'') ?s3))"
      if flat: "list_all (\<lambda>n. find_all (has_name ''p'') (contents n) = [])
                  (find_all (has_name ''p'') ?s3)"
    proof -
      have "\<And>n. unwanted_p n \<Longrightarrow> has_name ''p'' n" by (simp add: unwanted_p_def)
      from prune_flat [of unwanted_p "''p''", OF this flat]
      have "find_all (has_name ''p'') (prune unwanted_p ?s3)
              = filter (\<lambda>n. \<not> unwanted_p n) (find_all (has_name ''p'') ?s3)"
        and "pruned unwanted_p ?s3 = filter unwanted_p (find_all (has_name ''p'') ?s3)"
        by blast+
      with s' l' show ?thesis
        by (simp only: unwanted_p_filter not_unwanted_p_filter)
    qed
    with True show ?thesis by simp
  next
    case False
    with t l have s2: "soup' = s2" and l2: "l = l1 @ l2" by simp_all
    from a have "map normalized (find_all (has_name ''p'') s1)
        = map normalized (find_all (has_name ''p'') soup)"
      unfolding a_pass_def by (rule rewrite_normalized)
    moreover from i have "map normalized (find_all (has_name ''p'') s2)
        = map normalized (find_all (has_name ''p'') s1)"
      unfolding img_pass_def by (rule rewrite_normalized)
    ultimately show ?thesis using False s2 l2 by simp
  qed
  with a i show ?thesis by (simp add: Let_def)
qed

theorem unwanted_paragraphs_removed_witness:
  "fix_soup os_ex ''/r/The-Swift-Programming-Language.html'' ''/r'' index_ex book_ex
     = (Inr (book_ex_fixed, True), book_log_ex)
   \<and> find_all (has_name ''p'') book_ex_fixed =
       [Element ''p'' [] [Text ''see '', Element ''a'' [(''href'', ''a/x.html'')] [Text ''x'']]]"
proof -
  let ?book = "''/r/The-Swift-Programming-Language.html''"
  let ?A = "[Element ''h3'' [(''id'', ''intro'')] [Text ''Intro''],
      Element ''p'' [] [Text '' {'', Text (''  '' @ [CHR 0x0A] @ ''} '')],
      Element ''p'' [] [Text ''see '', Element ''a'' [(''href'', ''a/x.html'')] [Text ''x'']],
      Element ''div'' []
        [Element ''p'' [(''class'', ''note'')]
           [Text ''(scope: global) { (disabled) (disabled)'', Text '' (disabled) }'']]]"
  have f: "fix_soup os_ex ?book ''/r'' index_ex book_ex = (Inr (book_ex_fixed, True), book_log_ex)"
    by code_simp
  have d: "designated ?book" by code_simp
  have a: "fst (a_pass os_ex ?book ''/r'' index_ex book_ex) = Inr (?A, True)" by code_simp
  have i: "fst (img_pass ?book ?A) = Inr (?A, False)" by code_simp
  have flat: "list_all (\<lambda>n. find_all (has_name ''p'') (contents n) = [])
      (find_all (has_name ''p'') (rename ''h3'' ''h2'' (fst (remove_topics (fst (remove_citations ?A))))))"
    by code_simp
  have kept: "filter (\<lambda>n. normalized n \<notin>
                   {''{}'', ''(scope:global){(disabled)(disabled)(disabled)}''})
      (find_all (has_name ''p'') (rename ''h3'' ''h2'' (fst (remove_topics (fst (remove_citations ?A))))))
    = [Element ''p'' [] [Text ''see '', Element ''a'' [(''href'', ''a/x.html'')] [Text ''x'']]]"
    by code_simp
  from unwanted_paragraphs_removed [OF f] d obtain s1 c1 l1 s2 c2 l2 where
    a': "a_pass os_ex ?book ''/r'' index_ex book_ex = (Inr (s1, c1), l1)"
    and i': "img_pass ?book s1 = (Inr (s2, c2), l2)"
    and r: "list_all (\<lambda>n. find_all (has_name ''p'') (contents n) = [])
               (find_all (has_name ''p'')
                  (rename ''h3'' ''h2'' (fst (remove_topics (fst (remove_citations s2))))))
            \<longrightarrow> find_all (has_name ''p'') book_ex_fixed =
                  filter (\<lambda>n. normalized n \<notin>
                      {''{}'', ''(scope:global){(disabled)(disabled)(disabled)}''})
                    (find_all (has_name ''p'')
                       (rename ''h3'' ''h2'' (fst (remove_topics (fst (remove_citations s2))))))"
    unfolding Let_def if_P [OF d] by blast
  from a a' have "s1 = ?A" by simp
  with i i' have s2: "s2 = ?A" by simp
  from r [unfolded s2, THEN mp, OF flat] kept
  have "find_all (has_name ''p'') book_ex_fixed =
       [Element ''p'' [] [Text ''see '', Element ''a'' [(''href'', ''a/x.html'')] [Text ''x'']]]"
    by (rule trans)
  with f show ?thesis by blast
qed

section \<open>A second run\<close>


















end
